theory Spec2Isabelle
  imports Main "HOL-Library.Word" "HOL-Library.Char_ord" "HOL-Library.List_Lexorder"
begin

section \<open>State-capture instrumentation (InsertStackMaps)\<close>

subsection \<open>IR data model\<close>

text \<open>
  A \<open>Value\<close> is what a \<open>const Value *\<close> of the pass can point to: the result of an
  instruction (identified by the instruction's identity), a routine parameter, one of
  the two integer constants the pass builds for a marker, or any other value.
\<close>

datatype Value =
    InstV nat
  | ArgV nat
  | ConstInt64 "64 word"
  | ConstInt32 "32 word"
  | OtherV nat

datatype Opcode =
    CallInst "string option"
  | InvokeInst
  | ExtractElementInst
  | InsertElementInst
  | ExtractValueInst
  | InsertValueInst
  | GetElementPtrInst
  | BitCastInst
  | OtherInst

text \<open>
  An instruction has an identity (its address in the source), an opcode and operands.
  The operand of \<open>CallInst\<close> is the name of the called function, \<open>None\<close> for an indirect
  call or an unnamed callee. A basic block is the list of its instructions, a function a
  name and its blocks (a declaration has none), a module the list of its functions.
\<close>

record Instruction =
  ident :: nat
  opcode :: Opcode
  operands :: "Value list"

type_synonym BasicBlock = "Instruction list"

record Function =
  fname :: string
  blocks :: "BasicBlock list"

type_synonym Module = "Function list"

text \<open>
  The collaborators of the pass: the liveness analysis (queried with a call
  instruction), the dominator tree (queried with two instructions), the names of the
  values, the slot tracker, and the command line option \<open>no-live-vals\<close>. Instructions
  are handed to the two analyses by identity.
\<close>

record Env =
  getLiveValues :: "nat \<Rightarrow> Value list"
  dominates :: "nat \<Rightarrow> nat \<Rightarrow> bool"
  getName :: "Value \<Rightarrow> string option"
  getLocalSlot :: "Value \<Rightarrow> int"
  NoLiveVals :: bool

text \<open>The two counters of the pass object.\<close>

record PassState =
  callSiteID :: "64 word"
  numInstrumented :: nat

definition newPass :: PassState where
  "newPass = \<lparr>callSiteID = 0, numInstrumented = 0\<rparr>"

definition SMName :: string where
  "SMName = ''llvm.experimental.pcn.stackmap''"

subsection \<open>ValueComp and the sorted set of live values\<close>

definition hasName :: "Env \<Rightarrow> Value \<Rightarrow> bool" where
  "hasName env v = (getName env v \<noteq> None)"

definition ValueComp :: "Env \<Rightarrow> Value \<Rightarrow> Value \<Rightarrow> bool" where
  "ValueComp env a b =
     (if hasName env a \<and> hasName env b then the (getName env a) < the (getName env b)
      else if hasName env a then True
      else if hasName env b then False
      else getLocalSlot env a < getLocalSlot env b)"

text \<open>
  \<open>std::set<const Value *, ValueComp>::insert\<close>: the set is kept as the list of its
  elements in comparator order; an element equivalent to one already there (neither
  is less than the other) is not inserted.
\<close>

fun sortedInsert :: "Env \<Rightarrow> Value \<Rightarrow> Value list \<Rightarrow> Value list" where
  "sortedInsert env v [] = [v]"
| "sortedInsert env v (x # xs) =
     (if ValueComp env v x then v # x # xs
      else if ValueComp env x v then x # sortedInsert env v xs
      else x # xs)"

definition insertAll :: "Env \<Rightarrow> Value list \<Rightarrow> Value list \<Rightarrow> Value list" where
  "insertAll env vs s = foldl (\<lambda>acc v. sortedInsert env v acc) s vs"

subsection \<open>Classification of instructions\<close>

text \<open>
  Modelled from the spec: \<open>Popcorn::isCallSite\<close> (declared in PopcornUtil.h of
  llvm/Analysis, which is not among the sources) selects the call sites the pass
  walks: call and invoke instructions that are not calls of an intrinsic. A function
  whose name starts with \<open>llvm.\<close> is an intrinsic, so a call of the marker declaration
  is not a call site.
\<close>

definition isIntrinsicInst :: "Instruction \<Rightarrow> bool" where
  "isIntrinsicInst i =
     (case opcode i of CallInst (Some n) \<Rightarrow> take 5 n = ''llvm.'' | _ \<Rightarrow> False)"

definition isCallSite :: "Instruction \<Rightarrow> bool" where
  "isCallSite i =
     (case opcode i of CallInst c \<Rightarrow> \<not> isIntrinsicInst i | InvokeInst \<Rightarrow> True | _ \<Rightarrow> False)"

definition isInvoke :: "Instruction \<Rightarrow> bool" where
  "isInvoke i = (opcode i = InvokeInst)"

text \<open>The test of \<open>removeOldStackmaps\<close>: a \<open>CallInst\<close> whose callee is named \<open>SMName\<close>.\<close>

definition isStackmap :: "Instruction \<Rightarrow> bool" where
  "isStackmap i = (opcode i = CallInst (Some SMName))"

definition hidesValues :: "Instruction \<Rightarrow> bool" where
  "hidesValues i =
     (opcode i = ExtractElementInst \<or> opcode i = InsertElementInst \<or>
      opcode i = ExtractValueInst \<or> opcode i = InsertValueInst \<or>
      opcode i = GetElementPtrInst \<or> opcode i = BitCastInst)"

definition isDeclaration :: "Function \<Rightarrow> bool" where
  "isDeclaration f = (blocks f = [])"

fun isInstV :: "Value \<Rightarrow> bool" where
  "isInstV (InstV n) = True"
| "isInstV v = False"

fun isArgV :: "Value \<Rightarrow> bool" where
  "isArgV (ArgV n) = True"
| "isArgV v = False"

subsection \<open>addSMDeclaration and removeOldStackmaps\<close>

definition addSMDeclaration :: "Module \<Rightarrow> bool \<times> Module" where
  "addSMDeclaration M =
     (if \<exists>f \<in> set M. fname f = SMName then (False, M)
      else (True, M @ [\<lparr>fname = SMName, blocks = []\<rparr>]))"

text \<open>
  The scan of one block. \<open>i\<close> is the position of the iterator and \<open>m\<close> the flag
  \<open>modified\<close>. After an erasure the source sets the iterator to \<open>bb->begin()\<close> and the
  loop header then increments it, so the scan goes on at position 1. (A block keeps its
  terminator, so it is never empty after an erasure.)
\<close>

function scanBlock :: "BasicBlock \<Rightarrow> nat \<Rightarrow> bool \<Rightarrow> bool \<times> BasicBlock" where
  "scanBlock bb i m =
     (if i < length bb then
        (if isStackmap (bb ! i) then scanBlock (take i bb @ drop (Suc i) bb) 1 True
         else scanBlock bb (Suc i) m)
      else (m, bb))"
  by pat_completeness auto
termination
  by (relation "measures [\<lambda>(bb, i, m). length bb, \<lambda>(bb, i, m). length bb - i]") auto

declare scanBlock.simps [simp del]

fun scanBlocks :: "BasicBlock list \<Rightarrow> bool \<Rightarrow> bool \<times> BasicBlock list" where
  "scanBlocks [] m = (m, [])"
| "scanBlocks (bb # bbs) m =
     (case scanBlock bb 0 m of (m1, bb') \<Rightarrow>
        (case scanBlocks bbs m1 of (m2, bbs') \<Rightarrow> (m2, bb' # bbs')))"

fun scanFunctions :: "Module \<Rightarrow> bool \<Rightarrow> bool \<times> Module" where
  "scanFunctions [] m = (m, [])"
| "scanFunctions (f # fs) m =
     (case scanBlocks (blocks f) m of (m1, bbs') \<Rightarrow>
        (case scanFunctions fs m1 of (m2, fs') \<Rightarrow> (m2, f\<lparr>blocks := bbs'\<rparr> # fs')))"

definition removeOldStackmaps :: "Module \<Rightarrow> bool \<times> Module" where
  "removeOldStackmaps M = scanFunctions M False"

subsection \<open>getHiddenVals\<close>

text \<open>
  The two hiding tables have one entry per instruction of the function, keyed by the
  instruction; the entry of a structural instruction lists its operands that are
  instructions (first table) or parameters (second table). The tables are kept as
  lists of entries in instruction order.
\<close>

type_synonym HidingMap = "(nat \<times> Value list) list"

definition instructions :: "Function \<Rightarrow> Instruction list" where
  "instructions f = concat (blocks f)"

definition getHiddenVals :: "Function \<Rightarrow> HidingMap \<times> HidingMap" where
  "getHiddenVals f =
     (map (\<lambda>i. (ident i, if hidesValues i then filter isInstV (operands i) else []))
          (instructions f),
      map (\<lambda>i. (ident i, if hidesValues i then filter isArgV (operands i) else []))
          (instructions f))"

subsection \<open>The live values of a call site\<close>

definition addHiddenInst ::
  "Env \<Rightarrow> Instruction \<Rightarrow> Value list \<Rightarrow> HidingMap \<Rightarrow> Value list \<Rightarrow> Value list" where
  "addHiddenInst env call live hiddenInst s =
     foldl (\<lambda>acc pair.
              if dominates env (fst pair) (ident call) \<and> InstV (fst pair) \<in> set live
              then insertAll env (snd pair) acc else acc)
           s hiddenInst"

definition addHiddenArgs ::
  "Env \<Rightarrow> Value list \<Rightarrow> HidingMap \<Rightarrow> Value list \<Rightarrow> Value list" where
  "addHiddenArgs env live hiddenArgs s =
     foldl (\<lambda>acc pair.
              if InstV (fst pair) \<in> set live then insertAll env (snd pair) acc else acc)
           s hiddenArgs"

definition sortedLive :: "Env \<Rightarrow> HidingMap \<Rightarrow> HidingMap \<Rightarrow> Instruction \<Rightarrow> Value list" where
  "sortedLive env hiddenInst hiddenArgs call =
     (let live = getLiveValues env (ident call) in
      addHiddenArgs env live hiddenArgs
        (addHiddenInst env call live hiddenInst (insertAll env live [])))"

subsection \<open>runOnModule\<close>

text \<open>
  The marker call built by \<open>IRBuilder::CreateCall\<close>. It is a new instruction of type
  void, which no value, analysis or table refers to; its identity is left 0.
\<close>

definition makeStackmap :: "Value list \<Rightarrow> Instruction" where
  "makeStackmap args = \<lparr>ident = 0, opcode = CallInst (Some SMName), operands = args\<rparr>"

text \<open>
  The walk over the instructions of one block. The marker is inserted before the next
  node of the call, and the iterator then steps onto it, so the marker is the next
  instruction the walk looks at.
\<close>

function instrumentBlock ::
  "Env \<Rightarrow> HidingMap \<Rightarrow> HidingMap \<Rightarrow> PassState \<Rightarrow> BasicBlock \<Rightarrow> PassState \<times> BasicBlock" where
  "instrumentBlock env hI hA ps [] = (ps, [])"
| "instrumentBlock env hI hA ps (i # rest) =
     (if isCallSite i then
        (if isInvoke i then
           (case instrumentBlock env hI hA ps rest of (ps', r) \<Rightarrow> (ps', i # r))
         else
           (let args = [ConstInt64 (callSiteID ps), ConstInt32 0];
                ps1 = ps\<lparr>callSiteID := callSiteID ps + 1\<rparr>
            in if NoLiveVals env then
                 (case instrumentBlock env hI hA
                         (ps1\<lparr>numInstrumented := numInstrumented ps1 + 1\<rparr>)
                         (makeStackmap args # rest)
                  of (ps', r) \<Rightarrow> (ps', i # r))
               else
                 (case instrumentBlock env hI hA
                         (ps1\<lparr>numInstrumented := numInstrumented ps1 + 1\<rparr>)
                         (makeStackmap (args @ sortedLive env hI hA i) # rest)
                  of (ps', r) \<Rightarrow> (ps', i # r))))
      else (case instrumentBlock env hI hA ps rest of (ps', r) \<Rightarrow> (ps', i # r)))"
  by pat_completeness auto
termination
  by (relation "measure (\<lambda>(env, hI, hA, ps, bb). length bb + length (filter isCallSite bb))")
     (auto simp: isCallSite_def isIntrinsicInst_def makeStackmap_def SMName_def)

declare instrumentBlock.simps [simp del]

fun instrumentBlocks ::
  "Env \<Rightarrow> HidingMap \<Rightarrow> HidingMap \<Rightarrow> PassState \<Rightarrow> BasicBlock list
     \<Rightarrow> PassState \<times> BasicBlock list" where
  "instrumentBlocks env hI hA ps [] = (ps, [])"
| "instrumentBlocks env hI hA ps (b # bs) =
     (case instrumentBlock env hI hA ps b of (ps1, b') \<Rightarrow>
        (case instrumentBlocks env hI hA ps1 bs of (ps2, bs') \<Rightarrow> (ps2, b' # bs')))"

definition instrumentFunction :: "Env \<Rightarrow> PassState \<Rightarrow> Function \<Rightarrow> PassState \<times> Function" where
  "instrumentFunction env ps f =
     (if isDeclaration f then (ps, f)
      else (case getHiddenVals f of (hI, hA) \<Rightarrow>
              (case instrumentBlocks env hI hA ps (blocks f) of (ps1, bs') \<Rightarrow>
                 (ps1\<lparr>callSiteID := 0\<rparr>, f\<lparr>blocks := bs'\<rparr>))))"

fun instrumentFunctions :: "Env \<Rightarrow> PassState \<Rightarrow> Module \<Rightarrow> PassState \<times> Module" where
  "instrumentFunctions env ps [] = (ps, [])"
| "instrumentFunctions env ps (f # fs) =
     (case instrumentFunction env ps f of (ps1, f') \<Rightarrow>
        (case instrumentFunctions env ps1 fs of (ps2, fs') \<Rightarrow> (ps2, f' # fs')))"

definition runOnModule :: "Env \<Rightarrow> PassState \<Rightarrow> Module \<Rightarrow> bool \<times> PassState \<times> Module" where
  "runOnModule env ps M =
     (case addSMDeclaration M of (added, M1) \<Rightarrow>
        (case removeOldStackmaps M1 of (removed, M2) \<Rightarrow>
           (case instrumentFunctions env ps M2 of (ps', M3) \<Rightarrow>
              ((added \<or> removed) \<or> numInstrumented ps' > 0, ps', M3))))"

section \<open>Loop path enumeration (EnumerateLoopPaths)\<close>

subsection \<open>Control-flow graph and loops\<close>

text \<open>
  Basic blocks are numbered. An instruction is a block and a position in the block. The
  control-flow graph gives, for each block, its instructions, each marked whether
  \<open>Popcorn::isEquivalencePoint\<close> holds of it (the oracle of the analysis), and its
  successors in order. The last instruction of a block is its terminator.
\<close>

type_synonym Instr = "nat \<times> nat"

record CFG =
  eqPoints :: "nat \<Rightarrow> bool list"
  successors :: "nat \<Rightarrow> nat list"

text \<open>
  A loop of \<open>LoopInfo\<close>: an identity, the header, the blocks (those of its sub-loops
  included) and the sub-loops. \<open>LoopInfo\<close> itself is the list of the top-level loops.
\<close>

datatype Loop = Loop (loopId: nat) (getHeader: nat) (getBlocks: "nat list") (getSubLoops: "Loop list")

definition contains :: "Loop \<Rightarrow> nat \<Rightarrow> bool" where
  "contains L BB = (BB \<in> set (getBlocks L))"

definition getLoopLatches :: "CFG \<Rightarrow> Loop \<Rightarrow> nat list" where
  "getLoopLatches g L = filter (\<lambda>BB. getHeader L \<in> set (successors g BB)) (getBlocks L)"

definition getExitingBlocks :: "CFG \<Rightarrow> Loop \<Rightarrow> nat list" where
  "getExitingBlocks g L =
     filter (\<lambda>BB. \<exists>Succ \<in> set (successors g BB). \<not> contains L Succ) (getBlocks L)"

definition front :: "nat \<Rightarrow> Instr" where
  "front BB = (BB, 0)"

definition getTerminator :: "CFG \<Rightarrow> nat \<Rightarrow> Instr" where
  "getTerminator g BB = (BB, length (eqPoints g BB) - 1)"

definition isTerminator :: "CFG \<Rightarrow> Instr \<Rightarrow> bool" where
  "isTerminator g I = (Suc (snd I) = length (eqPoints g (fst I)))"

definition getNextNode :: "Instr \<Rightarrow> Instr" where
  "getNextNode I = (fst I, Suc (snd I))"

definition isEquivalencePoint :: "CFG \<Rightarrow> Instr \<Rightarrow> bool" where
  "isEquivalencePoint g I = (snd I < length (eqPoints g (fst I)) \<and> eqPoints g (fst I) ! snd I)"

subsection \<open>LoopPathUtilities\<close>

text \<open>
  \<open>populateLoopNest\<close>: the loop and all loops nested in it, breadth first. \<open>bfs\<close> is the
  while loop; its first argument is the queue \<open>ToVisit\<close>, its second the nest so far.
  The nest is kept in the order of insertion.
\<close>

function bfs :: "Loop list \<Rightarrow> Loop list \<Rightarrow> Loop list" where
  "bfs [] Nest = Nest"
| "bfs (Sub # ToVisit) Nest = bfs (ToVisit @ getSubLoops Sub) (Nest @ getSubLoops Sub)"
  by pat_completeness auto
termination
proof (relation "measure (\<lambda>(q, n). sum_list (map size q))")
  show "wf (measure (\<lambda>(q, n). sum_list (map size q)))" by simp
next
  fix Sub :: Loop and ToVisit Nest :: "Loop list"
  have "sum_list (map size (getSubLoops Sub)) < size Sub"
    by (cases Sub) (simp add: size_list_conv_sum_list)
  then show "((ToVisit @ getSubLoops Sub, Nest @ getSubLoops Sub), (Sub # ToVisit, Nest))
               \<in> measure (\<lambda>(q, n). sum_list (map size q))"
    by simp
qed

definition populateLoopNest :: "Loop \<Rightarrow> Loop list" where
  "populateLoopNest L = bfs [L] [L]"

definition getSubBlocks :: "Loop \<Rightarrow> nat list" where
  "getSubBlocks L =
     concat (map (\<lambda>Sub. concat (map getBlocks (populateLoopNest Sub))) (getSubLoops L))"

text \<open>
  \<open>LoopInfo::getLoopFor\<close>: the innermost loop a block lives in, none if it is in no loop.
  Of the loops that contain a block, the innermost is the last one in breadth-first
  order.
\<close>

definition allLoops :: "Loop list \<Rightarrow> Loop list" where
  "allLoops loops = concat (map populateLoopNest loops)"

definition getLoopFor :: "Loop list \<Rightarrow> nat \<Rightarrow> Loop option" where
  "getLoopFor loops BB =
     (case filter (\<lambda>L. contains L BB) (allLoops loops) of [] \<Rightarrow> None | Ls \<Rightarrow> Some (last Ls))"

subsection \<open>Paths and the state of the analysis\<close>

type_synonym PathNode = "nat \<times> bool"

record LoopPath =
  Nodes :: "PathNode list"
  Start :: Instr
  End :: Instr
  StartsAtHeader :: bool
  EndsAtBackedge :: bool

text \<open>
  Modelled from the spec: the class \<open>LoopPath\<close> is declared in LoopPaths.h, which is not
  among the sources. Its nodes are an ordered, deduplicated sequence of path nodes; the
  constructor (in the sources) inserts the nodes of the vector one by one.
\<close>

definition insertNode :: "PathNode list \<Rightarrow> PathNode \<Rightarrow> PathNode list" where
  "insertNode ns n = (if n \<in> set ns then ns else ns @ [n])"

definition mkLoopPath :: "PathNode list \<Rightarrow> Instr \<Rightarrow> Instr \<Rightarrow> bool \<Rightarrow> bool \<Rightarrow> LoopPath" where
  "mkLoopPath NodeVector s e startsAtHeader endsAtBackedge =
     \<lparr>Nodes = foldl insertNode [] NodeVector, Start = s, End = e,
      StartsAtHeader = startsAtHeader, EndsAtBackedge = endsAtBackedge\<rparr>"

text \<open>
  What \<open>loopDFS\<close> reads without changing it: the graph, \<open>LoopInfo\<close>, the option
  \<open>max-num-paths\<close>, and the members \<open>CurLoop\<close>, \<open>Latches\<close> and \<open>SubLoopBlocks\<close> that
  \<open>analyzeLoop\<close> sets before the search.
\<close>

record Context =
  cfg :: CFG
  LI :: "Loop list"
  MaxNumPaths :: nat
  CurLoop :: Loop
  Latches :: "nat list"
  SubLoopBlocks :: "nat list"

text \<open>
  The part of \<open>LoopDFSInfo\<close> that stays the same during one search. The vector
  \<open>PathNodes\<close> is passed to \<open>loopDFS\<close> as an argument of its own: every call that returns
  true has popped what it pushed, and after a call that returns false the vector is not
  used again.
\<close>

record LoopDFSInfo =
  DFSI_Start :: Instr
  DFSI_StartsAtHeader :: bool

text \<open>
  What the analysis writes: the results per loop (loops are keys by identity), the two
  flags, the vector \<open>CurPaths\<close> (in the source a reference to \<open>Paths[L]\<close>; here a working
  copy that \<open>analyzeLoop\<close> stores back) and the list \<open>NewPaths\<close> of \<open>analyzeLoop\<close>.
\<close>

record Analysis =
  Paths :: "nat \<rightharpoonup> LoopPath list"
  HasSpPath :: "nat \<Rightarrow> nat \<rightharpoonup> bool"
  HasEqPointPath :: "nat \<Rightarrow> nat \<rightharpoonup> bool"
  TooManyPaths :: bool
  DetectedCycle :: bool
  CurPaths :: "LoopPath list"
  NewPaths :: "Instr list"

text \<open>
  Modelled from the spec: \<open>reset\<close>, \<open>analysisFailed\<close> and \<open>hasPaths\<close> are defined in
  LoopPaths.h, which is not among the sources. A reset discards the paths and the two
  per-block summaries of every loop; the analysis has failed when a cycle was detected or
  the path ceiling was exceeded; a loop has paths when there is an entry for it.
\<close>

definition reset :: "Analysis \<Rightarrow> Analysis" where
  "reset st = st\<lparr>Paths := Map.empty, HasSpPath := (\<lambda>L. Map.empty),
                 HasEqPointPath := (\<lambda>L. Map.empty)\<rparr>"

definition analysisFailed :: "Analysis \<Rightarrow> bool" where
  "analysisFailed st = (TooManyPaths st \<or> DetectedCycle st)"

definition hasPaths :: "Analysis \<Rightarrow> Loop \<Rightarrow> bool" where
  "hasPaths st L = (Paths st (loopId L) \<noteq> None)"

subsection \<open>Helpers of loopDFS\<close>

definition hasEquivalencePoint :: "CFG \<Rightarrow> Instr \<Rightarrow> Instr option" where
  "hasEquivalencePoint g I =
     map_option (\<lambda>j. (fst I, j))
       (find (\<lambda>j. eqPoints g (fst I) ! j) [snd I ..< length (eqPoints g (fst I))])"

definition pushIfNotPresent :: "Instr \<Rightarrow> Instr list \<Rightarrow> Instr list" where
  "pushIfNotPresent I List = (if I \<in> set List then List else List @ [I])"

definition pathContains :: "PathNode list \<Rightarrow> nat \<Rightarrow> bool" where
  "pathContains Path BB = (\<exists>Node \<in> set Path. fst Node = BB)"

text \<open>
  \<open>operator[]\<close> of the per-block summary of a loop: a block without an entry gets the
  entry false.
\<close>

definition lookupOrInsert :: "(nat \<Rightarrow> nat \<rightharpoonup> bool) \<Rightarrow> nat \<Rightarrow> nat \<Rightarrow> bool \<times> (nat \<Rightarrow> nat \<rightharpoonup> bool)" where
  "lookupOrInsert m L BB =
     (case m L BB of Some v \<Rightarrow> (v, m) | None \<Rightarrow> (False, m(L := (m L)(BB \<mapsto> False))))"

text \<open>
  \<open>getSubLoopSuccessors\<close> returns the two vectors \<open>EqPoint\<close> and \<open>Spanning\<close>. (The source
  asserts that the successor is a sub-loop block, for which \<open>getLoopFor\<close> finds a loop.)
\<close>

definition exitStep ::
  "CFG \<Rightarrow> Loop \<Rightarrow> Instr list \<times> Instr list \<times> Analysis \<Rightarrow> nat \<Rightarrow> Instr list \<times> Instr list \<times> Analysis" where
  "exitStep g SubLoop acc Exit =
     (case acc of (EqPoint, Spanning, st) \<Rightarrow>
        (case lookupOrInsert (HasSpPath st) (loopId SubLoop) Exit of (sp, m1) \<Rightarrow>
           (case lookupOrInsert (HasEqPointPath st) (loopId SubLoop) Exit of (eq, m2) \<Rightarrow>
              (if eq then EqPoint @ [getTerminator g Exit] else EqPoint,
               if sp then Spanning @ [getTerminator g Exit] else Spanning,
               st\<lparr>HasSpPath := m1, HasEqPointPath := m2\<rparr>))))"

definition getSubLoopSuccessors ::
  "Context \<Rightarrow> nat \<Rightarrow> Analysis \<Rightarrow> Instr list \<times> Instr list \<times> Analysis" where
  "getSubLoopSuccessors c Successor st =
     (case getLoopFor (LI c) Successor of
        None \<Rightarrow> ([], [], st)
      | Some SubLoop \<Rightarrow>
          foldl (exitStep (cfg c) SubLoop) ([], [], st) (getExitingBlocks (cfg c) SubLoop))"

definition addPath :: "LoopDFSInfo \<Rightarrow> PathNode list \<Rightarrow> Instr \<Rightarrow> bool \<Rightarrow> Analysis \<Rightarrow> Analysis" where
  "addPath d PathNodes e endsAtBackedge st =
     st\<lparr>CurPaths := CurPaths st @
          [mkLoopPath PathNodes (DFSI_Start d) e (DFSI_StartsAtHeader d) endsAtBackedge]\<rparr>"

definition markNode :: "Context \<Rightarrow> (nat \<Rightarrow> nat \<rightharpoonup> bool) \<Rightarrow> PathNode \<Rightarrow> (nat \<Rightarrow> nat \<rightharpoonup> bool)" where
  "markNode c m Node =
     (if fst Node \<notin> set (SubLoopBlocks c)
      then m(loopId (CurLoop c) := (m (loopId (CurLoop c)))(fst Node \<mapsto> True))
      else m)"

definition markEqPoint :: "Context \<Rightarrow> PathNode list \<Rightarrow> Analysis \<Rightarrow> Analysis" where
  "markEqPoint c PathNodes st =
     st\<lparr>HasEqPointPath := foldl (markNode c) (HasEqPointPath st) PathNodes\<rparr>"

definition markSpanning :: "Context \<Rightarrow> PathNode list \<Rightarrow> Analysis \<Rightarrow> Analysis" where
  "markSpanning c PathNodes st =
     st\<lparr>HasSpPath := foldl (markNode c) (HasSpPath st) PathNodes\<rparr>"

definition push :: "Instr \<Rightarrow> Analysis \<Rightarrow> Analysis" where
  "push I st = st\<lparr>NewPaths := pushIfNotPresent I (NewPaths st)\<rparr>"

text \<open>A loop over a list whose body may return false, which ends the search.\<close>

fun forEach :: "('a \<Rightarrow> 's \<Rightarrow> bool \<times> 's) \<Rightarrow> 'a list \<Rightarrow> 's \<Rightarrow> bool \<times> 's" where
  "forEach body [] st = (True, st)"
| "forEach body (x # xs) st =
     (case body x st of (True, st1) \<Rightarrow> forEach body xs st1 | (False, st1) \<Rightarrow> (False, st1))"

lemma forEach_cong [fundef_cong]:
  "xs = ys \<Longrightarrow> st = st' \<Longrightarrow> (\<And>x s. x \<in> set ys \<Longrightarrow> body x s = body' x s) \<Longrightarrow>
   forEach body xs st = forEach body' ys st'"
proof (induction ys arbitrary: xs st st')
  case Nil
  then show ?case by simp
next
  case (Cons y ys)
  then show ?case by (auto split: prod.splits bool.splits)
qed

text \<open>
  The code for a successor in a sub-loop, after an equivalence point at the end of the
  block: the exits of the sub-loop with an equivalence point path are new starts, the
  search goes on (\<open>continue\<close>) at the exits with a spanning path.
\<close>

definition enterSubLoopAfterEqPoint ::
  "Context \<Rightarrow> (Instr \<Rightarrow> Analysis \<Rightarrow> bool \<times> Analysis) \<Rightarrow> nat \<Rightarrow> Analysis \<Rightarrow> bool \<times> Analysis" where
  "enterSubLoopAfterEqPoint c continue Succ st =
     (case getSubLoopSuccessors c Succ st of (EqPointInsts, SpanningInsts, st1) \<Rightarrow>
        forEach continue SpanningInsts (foldl (\<lambda>s SLE. push SLE s) st1 EqPointInsts))"

text \<open>
  The code for a successor in a sub-loop otherwise (the source has it twice, for a block
  of the loop itself and for a block of a sub-loop): for each exit of the sub-loop with
  an equivalence point path, the current path is recorded as ending at the end of the
  current block, and the exit is a new start; the search goes on at the exits with a
  spanning path.
\<close>

definition stopAtSubLoop ::
  "Context \<Rightarrow> LoopDFSInfo \<Rightarrow> PathNode list \<Rightarrow> nat \<Rightarrow> Instr \<Rightarrow> Analysis \<Rightarrow> bool \<times> Analysis" where
  "stopAtSubLoop c d PathNodes BB SLE st =
     (let st1 = addPath d PathNodes (getTerminator (cfg c) BB) False st in
      if length (CurPaths st1) > MaxNumPaths c then (False, st1\<lparr>TooManyPaths := True\<rparr>)
      else (True, push SLE st1))"

definition enterSubLoop ::
  "Context \<Rightarrow> LoopDFSInfo \<Rightarrow> PathNode list \<Rightarrow> nat \<Rightarrow> (Instr \<Rightarrow> Analysis \<Rightarrow> bool \<times> Analysis)
     \<Rightarrow> nat \<Rightarrow> Analysis \<Rightarrow> bool \<times> Analysis" where
  "enterSubLoop c d PathNodes BB continue Succ st =
     (case getSubLoopSuccessors c Succ st of (EqPointInsts, SpanningInsts, st1) \<Rightarrow>
        (case forEach (stopAtSubLoop c d PathNodes BB) EqPointInsts st1 of
           (False, st2) \<Rightarrow> (False, st2)
         | (True, st2) \<Rightarrow> forEach continue SpanningInsts st2))"

lemma enterSubLoopAfterEqPoint_cong [fundef_cong]:
  "c = c' \<Longrightarrow> Succ = Succ' \<Longrightarrow> st = st' \<Longrightarrow>
   (\<And>SLE s. SLE \<in> set (fst (snd (getSubLoopSuccessors c' Succ' st'))) \<Longrightarrow>
             continue SLE s = continue' SLE s) \<Longrightarrow>
   enterSubLoopAfterEqPoint c continue Succ st = enterSubLoopAfterEqPoint c' continue' Succ' st'"
  unfolding enterSubLoopAfterEqPoint_def
  by (auto split: prod.splits intro!: forEach_cong)

lemma enterSubLoop_cong [fundef_cong]:
  "c = c' \<Longrightarrow> d = d' \<Longrightarrow> PathNodes = PathNodes' \<Longrightarrow> BB = BB' \<Longrightarrow> Succ = Succ' \<Longrightarrow> st = st' \<Longrightarrow>
   (\<And>SLE s. SLE \<in> set (fst (snd (getSubLoopSuccessors c' Succ' st'))) \<Longrightarrow>
             continue SLE s = continue' SLE s) \<Longrightarrow>
   enterSubLoop c d PathNodes BB continue Succ st =
   enterSubLoop c' d' PathNodes' BB' continue' Succ' st'"
  unfolding enterSubLoop_def
  by (auto split: prod.splits bool.splits intro!: forEach_cong)

subsection \<open>loopDFS\<close>

text \<open>
  Termination of the search: every call pushes a block that is not on the path, and the
  blocks the search reaches are blocks of the current loop or of a loop of \<open>LoopInfo\<close>.
\<close>

definition searchSpace :: "Context \<Rightarrow> nat set" where
  "searchSpace c = set (getBlocks (CurLoop c)) \<union> set (concat (map getBlocks (allLoops (LI c))))"

definition searchMeasure :: "Context \<times> LoopDFSInfo \<times> Instr \<times> PathNode list \<times> Analysis \<Rightarrow> nat" where
  "searchMeasure = (\<lambda>(c, d, I, PathNodes, st).
     2 * card (searchSpace c - fst ` set PathNodes) + (if fst I \<in> searchSpace c then 0 else 1))"

lemma getLoopFor_allLoops: "getLoopFor loops BB = Some S \<Longrightarrow> S \<in> set (allLoops loops)"
proof -
  assume a: "getLoopFor loops BB = Some S"
  let ?Ls = "filter (\<lambda>L. contains L BB) (allLoops loops)"
  from a have "?Ls \<noteq> []" and "S = last ?Ls"
    by (auto simp: getLoopFor_def split: list.splits)
  then have "S \<in> set ?Ls" using last_in_set by blast
  then show ?thesis by simp
qed

lemma exitStep_spanning:
  "set (fst (snd (foldl (exitStep g S) acc exits)))
     \<subseteq> set (fst (snd acc)) \<union> getTerminator g ` set exits"
proof (induction exits arbitrary: acc)
  case Nil
  show ?case by simp
next
  case (Cons e es)
  have "set (fst (snd (exitStep g S acc e))) \<subseteq> set (fst (snd acc)) \<union> {getTerminator g e}"
    by (auto simp: exitStep_def split: prod.splits)
  with Cons.IH [of "exitStep g S acc e"] show ?case by auto
qed

lemma exitStep_eqPoint:
  "set (fst (foldl (exitStep g S) acc exits))
     \<subseteq> set (fst acc) \<union> getTerminator g ` set exits"
proof (induction exits arbitrary: acc)
  case Nil
  show ?case by simp
next
  case (Cons e es)
  have "set (fst (exitStep g S acc e)) \<subseteq> set (fst acc) \<union> {getTerminator g e}"
    by (auto simp: exitStep_def split: prod.splits)
  with Cons.IH [of "exitStep g S acc e"] show ?case by auto
qed

lemma spanning_in_searchSpace:
  assumes "SLE \<in> set (fst (snd (getSubLoopSuccessors c Succ s)))"
  shows "fst SLE \<in> searchSpace c"
proof (cases "getLoopFor (LI c) Succ")
  case None
  with assms show ?thesis by (simp add: getSubLoopSuccessors_def)
next
  case (Some S)
  with assms exitStep_spanning [of "cfg c" S "([], [], s)" "getExitingBlocks (cfg c) S"]
  obtain e where "e \<in> set (getExitingBlocks (cfg c) S)" "SLE = getTerminator (cfg c) e"
    by (auto simp: getSubLoopSuccessors_def)
  then have "fst SLE \<in> set (getBlocks S)"
    by (simp add: getExitingBlocks_def getTerminator_def)
  with getLoopFor_allLoops [OF Some] show ?thesis
    by (auto simp: searchSpace_def)
qed

lemma finite_searchSpace: "finite (searchSpace c)"
  by (simp add: searchSpace_def)

lemma searchMeasure_decreases:
  assumes "\<not> pathContains PathNodes BB" and "fst J \<in> searchSpace c" and "fst I = BB"
  shows "searchMeasure (c, d, J, PathNodes @ [(BB, b)], s) < searchMeasure (c, d, I, PathNodes, st)"
proof -
  let ?A = "searchSpace c - fst ` set PathNodes"
  let ?B = "searchSpace c - fst ` set (PathNodes @ [(BB, b)])"
  have fin: "finite ?A" using finite_searchSpace by simp
  have nin: "BB \<notin> fst ` set PathNodes" using assms(1) by (auto simp: pathContains_def)
  have eq: "?B = ?A - {BB}" by auto
  have m1: "searchMeasure (c, d, J, PathNodes @ [(BB, b)], s) = 2 * card ?B"
    using assms(2) by (simp add: searchMeasure_def)
  have m2: "searchMeasure (c, d, I, PathNodes, st) =
            2 * card ?A + (if BB \<in> searchSpace c then 0 else 1)"
    using assms(3) by (simp add: searchMeasure_def)
  show ?thesis
  proof (cases "BB \<in> searchSpace c")
    case True
    with nin have "BB \<in> ?A" by simp
    with fin have "card (?A - {BB}) < card ?A" by (rule card_Diff1_less)
    then have "card ?B < card ?A" unfolding eq .
    with True show ?thesis unfolding m1 m2 by simp
  next
    case False
    then have "?A - {BB} = ?A" by auto
    then have "card ?B = card ?A" unfolding eq by simp
    with False show ?thesis unfolding m1 m2 by simp
  qed
qed

text \<open>
  The search. \<open>I\<close> is the instruction to go on at, \<open>PathNodes\<close> the path so far. The
  result is the return value of the source and the new state of the analysis.
\<close>

function loopDFS ::
  "Context \<Rightarrow> LoopDFSInfo \<Rightarrow> Instr \<Rightarrow> PathNode list \<Rightarrow> Analysis \<Rightarrow> bool \<times> Analysis" where
  "loopDFS c d I PathNodes st =
     (let BB = fst I in
      if BB \<notin> set (SubLoopBlocks c) then
        (if pathContains PathNodes BB then (False, st\<lparr>DetectedCycle := True\<rparr>)
         else
           (let P = PathNodes @ [(BB, False)] in
            case hasEquivalencePoint (cfg c) I of
              Some EqPoint \<Rightarrow>
                (let st1 = addPath d P EqPoint False st in
                 if length (CurPaths st1) > MaxNumPaths c then (False, st1\<lparr>TooManyPaths := True\<rparr>)
                 else
                   (let st2 = markEqPoint c P st1 in
                    if \<not> isTerminator (cfg c) EqPoint then (True, push (getNextNode EqPoint) st2)
                    else
                      forEach
                        (\<lambda>Succ s.
                           if \<not> contains (CurLoop c) Succ \<or> Succ = getHeader (CurLoop c)
                           then (True, s)
                           else if Succ \<notin> set (SubLoopBlocks c) then (True, push (front Succ) s)
                           else enterSubLoopAfterEqPoint c (\<lambda>SLE s'. loopDFS c d SLE P s') Succ s)
                        (successors (cfg c) BB) st2))
            | None \<Rightarrow>
                if BB \<in> set (Latches c) then
                  (let st1 = addPath d P (getTerminator (cfg c) BB) True st in
                   if length (CurPaths st1) > MaxNumPaths c then (False, st1\<lparr>TooManyPaths := True\<rparr>)
                   else if DFSI_StartsAtHeader d then (True, markSpanning c P st1)
                   else (True, markEqPoint c P st1))
                else
                  forEach
                    (\<lambda>Succ s.
                       if \<not> contains (CurLoop c) Succ then (True, s)
                       else if Succ \<notin> set (SubLoopBlocks c) then loopDFS c d (front Succ) P s
                       else enterSubLoop c d P BB (\<lambda>SLE s'. loopDFS c d SLE P s') Succ s)
                    (successors (cfg c) BB) st))
      else
        (if pathContains PathNodes BB then (False, st\<lparr>DetectedCycle := True\<rparr>)
         else
           (let P = PathNodes @ [(BB, True)]; WeedOutLoop = getLoopFor (LI c) BB in
            forEach
              (\<lambda>Succ s.
                 if (case WeedOutLoop of Some W \<Rightarrow> contains W Succ | None \<Rightarrow> False)
                    \<or> \<not> contains (CurLoop c) Succ
                 then (True, s)
                 else if Succ \<notin> set (SubLoopBlocks c) then loopDFS c d (front Succ) P s
                 else enterSubLoop c d P BB (\<lambda>SLE s'. loopDFS c d SLE P s') Succ s)
              (successors (cfg c) BB) st)))"
  by pat_completeness auto
termination
proof (relation "measure searchMeasure", goal_cases)
  case 1
  show ?case by simp
next
  case (2 c d I PathNodes st x xa xb s)
  then show ?case
    using searchMeasure_decreases [of PathNodes "fst I" "front xb" c I d False s st]
    by (simp add: contains_def searchSpace_def front_def)
next
  case (3 c d I PathNodes st x xa xb s SLE sa)
  then show ?case
    using searchMeasure_decreases [of PathNodes "fst I" SLE c I d False sa st]
      spanning_in_searchSpace [of SLE c xb s]
    by simp
next
  case (4 c d I PathNodes st x xa x2 xb xc xba s SLE sa)
  then show ?case
    using searchMeasure_decreases [of PathNodes "fst I" SLE c I d False sa st]
      spanning_in_searchSpace [of SLE c xba s]
    by simp
next
  case (5 c d I PathNodes st x xa xb xc s)
  then show ?case
    using searchMeasure_decreases [of PathNodes "fst I" "front xc" c I d True s st]
    by (simp add: contains_def searchSpace_def front_def)
next
  case (6 c d I PathNodes st x xa xb xc s SLE sa)
  then show ?case
    using searchMeasure_decreases [of PathNodes "fst I" SLE c I d True sa st]
      spanning_in_searchSpace [of SLE c xc s]
    by simp
qed

declare loopDFS.simps [simp del]

subsection \<open>The search as a sequence of steps\<close>

text \<open>
  For the proofs, a run of \<open>loopDFS\<close> is described by the changes it makes to the state
  of the analysis, one at a time: recording a path that ends at an equivalence point, at
  a latch or before a sub-loop, adding a new start, and reading the summaries of a
  sub-loop. A run that returns true is a sequence of such steps; a run that returns false
  is such a sequence followed by one failing step. The number \<open>n0\<close> is the number of
  paths at the start of the run: a start is only added once the run has recorded a path.
  With \<open>v\<close> set, the steps also record that the instructions the search starts at are
  instructions of their blocks.
\<close>

definition instrOK :: "Context \<Rightarrow> Instr \<Rightarrow> bool" where
  "instrOK c I = (snd I \<le> length (eqPoints (cfg c) (fst I)) - 1)"

inductive okStep :: "Context \<Rightarrow> bool \<Rightarrow> nat \<Rightarrow> Analysis \<Rightarrow> Analysis \<Rightarrow> bool"
  for c :: Context and v :: bool and n0 :: nat where
  eqPointStep:
    "\<lbrakk>P \<noteq> []; distinct (map fst P); fst (last P) = fst e; fst e \<notin> set (SubLoopBlocks c);
      isEquivalencePoint (cfg c) e; length (CurPaths st) < MaxNumPaths c\<rbrakk>
     \<Longrightarrow> okStep c v n0 st (markEqPoint c P (addPath d P e False st))"
| latchStep:
    "\<lbrakk>P \<noteq> []; distinct (map fst P); fst (last P) = BB; BB \<in> set (Latches c);
      length (CurPaths st) < MaxNumPaths c\<rbrakk>
     \<Longrightarrow> okStep c v n0 st
           (if DFSI_StartsAtHeader d
            then markSpanning c P (addPath d P (getTerminator (cfg c) BB) True st)
            else markEqPoint c P (addPath d P (getTerminator (cfg c) BB) True st))"
| subLoopStep:
    "\<lbrakk>P \<noteq> []; distinct (map fst P); fst (last P) = BB;
      v \<longrightarrow> BB \<notin> set (SubLoopBlocks c) \<longrightarrow>
        \<not> isEquivalencePoint (cfg c) (getTerminator (cfg c) BB);
      Succ \<in> set (successors (cfg c) BB); contains (CurLoop c) Succ;
      Succ \<in> set (SubLoopBlocks c); getLoopFor (LI c) Succ = Some S;
      Exit \<in> set (getExitingBlocks (cfg c) S);
      HasEqPointPath st (loopId S) Exit = Some True;
      length (CurPaths st) < MaxNumPaths c\<rbrakk>
     \<Longrightarrow> okStep c v n0 st
           (push (getTerminator (cfg c) Exit) (addPath d P (getTerminator (cfg c) BB) False st))"
| pushStep:
    "\<lbrakk>n0 < length (CurPaths st); v \<longrightarrow> instrOK c x\<rbrakk> \<Longrightarrow> okStep c v n0 st (push x st)"
| lookupStep:
    "okStep c v n0 st (snd (snd (getSubLoopSuccessors c Succ st)))"

inductive failStep :: "Context \<Rightarrow> Analysis \<Rightarrow> Analysis \<Rightarrow> bool" for c :: Context where
  cycleStep: "failStep c st (st\<lparr>DetectedCycle := True\<rparr>)"
| tooManyStep:
    "\<not> length (CurPaths st) < MaxNumPaths c
     \<Longrightarrow> failStep c st ((addPath d P e b st)\<lparr>TooManyPaths := True\<rparr>)"

definition traced :: "Context \<Rightarrow> bool \<Rightarrow> nat \<Rightarrow> Analysis \<Rightarrow> bool \<times> Analysis \<Rightarrow> bool" where
  "traced c v n0 st r =
     (if fst r then (okStep c v n0)\<^sup>*\<^sup>* st (snd r)
      else (\<exists>t. (okStep c v n0)\<^sup>*\<^sup>* st t \<and> failStep c t (snd r)))"

lemma traced_refl: "traced c v n0 st (True, st)"
  by (simp add: traced_def)

lemma traced_ok: "okStep c v n0 st st' \<Longrightarrow> traced c v n0 st (True, st')"
  by (simp add: traced_def)

lemma traced_fail: "failStep c st st' \<Longrightarrow> traced c v n0 st (False, st')"
  by (auto simp: traced_def)

lemma traced_trans:
  "(okStep c v n0)\<^sup>*\<^sup>* st s1 \<Longrightarrow> traced c v n0 s1 r \<Longrightarrow> traced c v n0 st r"
  by (auto simp: traced_def split: if_splits intro: rtranclp_trans)

lemma length_addPath: "length (CurPaths (addPath d P e b st)) = Suc (length (CurPaths st))"
  by (simp add: addPath_def)

lemma CurPaths_markEqPoint: "CurPaths (markEqPoint c P st) = CurPaths st"
  by (simp add: markEqPoint_def)

lemma CurPaths_markSpanning: "CurPaths (markSpanning c P st) = CurPaths st"
  by (simp add: markSpanning_def)

lemma CurPaths_push: "CurPaths (push x st) = CurPaths st"
  by (simp add: push_def)

lemma exitStep_frame:
  "CurPaths (snd (snd (foldl (exitStep g S) acc exits))) = CurPaths (snd (snd acc)) \<and>
   NewPaths (snd (snd (foldl (exitStep g S) acc exits))) = NewPaths (snd (snd acc)) \<and>
   TooManyPaths (snd (snd (foldl (exitStep g S) acc exits))) = TooManyPaths (snd (snd acc)) \<and>
   DetectedCycle (snd (snd (foldl (exitStep g S) acc exits))) = DetectedCycle (snd (snd acc)) \<and>
   Paths (snd (snd (foldl (exitStep g S) acc exits))) = Paths (snd (snd acc))"
proof (induction exits arbitrary: acc)
  case Nil
  show ?case by simp
next
  case (Cons e es)
  have "CurPaths (snd (snd (exitStep g S acc e))) = CurPaths (snd (snd acc)) \<and>
        NewPaths (snd (snd (exitStep g S acc e))) = NewPaths (snd (snd acc)) \<and>
        TooManyPaths (snd (snd (exitStep g S acc e))) = TooManyPaths (snd (snd acc)) \<and>
        DetectedCycle (snd (snd (exitStep g S acc e))) = DetectedCycle (snd (snd acc)) \<and>
        Paths (snd (snd (exitStep g S acc e))) = Paths (snd (snd acc))"
    by (auto simp: exitStep_def split: prod.splits)
  with Cons.IH [of "exitStep g S acc e"] show ?case by simp
qed

lemma getSubLoopSuccessors_frame:
  "CurPaths (snd (snd (getSubLoopSuccessors c Succ st))) = CurPaths st \<and>
   NewPaths (snd (snd (getSubLoopSuccessors c Succ st))) = NewPaths st \<and>
   TooManyPaths (snd (snd (getSubLoopSuccessors c Succ st))) = TooManyPaths st \<and>
   DetectedCycle (snd (snd (getSubLoopSuccessors c Succ st))) = DetectedCycle st \<and>
   Paths (snd (snd (getSubLoopSuccessors c Succ st))) = Paths st"
proof (cases "getLoopFor (LI c) Succ")
  case None
  then show ?thesis by (simp add: getSubLoopSuccessors_def)
next
  case (Some S)
  with exitStep_frame [of "cfg c" S "([], [], st)" "getExitingBlocks (cfg c) S"]
  show ?thesis by (simp add: getSubLoopSuccessors_def)
qed

text \<open>A summary entry that is true stays true.\<close>

definition trueKept :: "(nat \<Rightarrow> nat \<rightharpoonup> bool) \<Rightarrow> (nat \<Rightarrow> nat \<rightharpoonup> bool) \<Rightarrow> bool" where
  "trueKept m m' = (\<forall>L BB. m L BB = Some True \<longrightarrow> m' L BB = Some True)"

lemma trueKept_refl: "trueKept m m"
  by (simp add: trueKept_def)

lemma trueKept_trans: "trueKept m m' \<Longrightarrow> trueKept m' m'' \<Longrightarrow> trueKept m m''"
  by (simp add: trueKept_def)

lemma lookupOrInsert_result:
  "lookupOrInsert m L BB = (v, m') \<Longrightarrow>
   (v \<longleftrightarrow> m L BB = Some True) \<and> (v \<longleftrightarrow> m' L BB = Some True) \<and>
   (\<forall>L' BB'. (m' L' BB' = Some True) = (m L' BB' = Some True))"
  by (auto simp: lookupOrInsert_def split: option.splits if_splits)

lemma exitStep_eqPoint_true:
  assumes "\<forall>x \<in> set (fst acc). \<exists>Exit \<in> E. x = getTerminator g Exit \<and>
              HasEqPointPath (snd (snd acc)) (loopId S) Exit = Some True"
    and "set exits \<subseteq> E"
  shows "\<forall>x \<in> set (fst (foldl (exitStep g S) acc exits)). \<exists>Exit \<in> E. x = getTerminator g Exit \<and>
              HasEqPointPath (snd (snd (foldl (exitStep g S) acc exits))) (loopId S) Exit = Some True"
  using assms
proof (induction exits arbitrary: acc)
  case Nil
  then show ?case by simp
next
  case (Cons e es)
  obtain eq sp st where acc: "acc = (eq, sp, st)" by (cases acc) auto
  obtain v1 m1 where l1: "lookupOrInsert (HasSpPath st) (loopId S) e = (v1, m1)" by force
  obtain v2 m2 where l2: "lookupOrInsert (HasEqPointPath st) (loopId S) e = (v2, m2)" by force
  note r2 = lookupOrInsert_result [OF l2]
  have step: "exitStep g S acc e =
      (if v2 then eq @ [getTerminator g e] else eq, if v1 then sp @ [getTerminator g e] else sp,
       st\<lparr>HasSpPath := m1, HasEqPointPath := m2\<rparr>)"
    by (simp add: exitStep_def acc l1 l2)
  have "\<forall>x \<in> set (fst (exitStep g S acc e)). \<exists>Exit \<in> E. x = getTerminator g Exit \<and>
           HasEqPointPath (snd (snd (exitStep g S acc e))) (loopId S) Exit = Some True"
  proof
    fix x assume x: "x \<in> set (fst (exitStep g S acc e))"
    show "\<exists>Exit \<in> E. x = getTerminator g Exit \<and>
           HasEqPointPath (snd (snd (exitStep g S acc e))) (loopId S) Exit = Some True"
    proof (cases "x \<in> set eq")
      case True
      with Cons.prems(1) acc obtain Exit where "Exit \<in> E" "x = getTerminator g Exit"
        "HasEqPointPath st (loopId S) Exit = Some True" by auto
      with r2 show ?thesis unfolding step by auto
    next
      case False
      with x have "v2" "x = getTerminator g e" unfolding step by (auto split: if_splits)
      with r2 Cons.prems(2) show ?thesis unfolding step by auto
    qed
  qed
  from Cons.IH [OF this] Cons.prems(2) show ?case by simp
qed

lemma getSubLoopSuccessors_eqPoint:
  assumes "SLE \<in> set (fst (getSubLoopSuccessors c Succ st))"
  shows "\<exists>S Exit. getLoopFor (LI c) Succ = Some S \<and> Exit \<in> set (getExitingBlocks (cfg c) S) \<and>
           SLE = getTerminator (cfg c) Exit \<and>
           HasEqPointPath (snd (snd (getSubLoopSuccessors c Succ st))) (loopId S) Exit = Some True"
proof (cases "getLoopFor (LI c) Succ")
  case None
  with assms show ?thesis by (simp add: getSubLoopSuccessors_def)
next
  case (Some S)
  have "\<forall>x \<in> set (fst (foldl (exitStep (cfg c) S) ([], [], st) (getExitingBlocks (cfg c) S))).
          \<exists>Exit \<in> set (getExitingBlocks (cfg c) S). x = getTerminator (cfg c) Exit \<and>
            HasEqPointPath (snd (snd (foldl (exitStep (cfg c) S) ([], [], st)
               (getExitingBlocks (cfg c) S)))) (loopId S) Exit = Some True"
    by (rule exitStep_eqPoint_true) simp_all
  with assms Some show ?thesis by (auto simp: getSubLoopSuccessors_def)
qed

lemma getSubLoopSuccessors_spanning:
  assumes "SLE \<in> set (fst (snd (getSubLoopSuccessors c Succ st)))"
  shows "instrOK c SLE"
proof (cases "getLoopFor (LI c) Succ")
  case None
  with assms show ?thesis by (simp add: getSubLoopSuccessors_def)
next
  case (Some S)
  with assms exitStep_spanning [of "cfg c" S "([], [], st)" "getExitingBlocks (cfg c) S"]
  obtain e where "SLE = getTerminator (cfg c) e"
    by (auto simp: getSubLoopSuccessors_def)
  then show ?thesis by (simp add: instrOK_def getTerminator_def)
qed

lemma hasEquivalencePoint_Some:
  "hasEquivalencePoint g I = Some e \<Longrightarrow> isEquivalencePoint g e \<and> fst e = fst I"
  by (auto simp: hasEquivalencePoint_def isEquivalencePoint_def find_Some_iff)

lemma hasEquivalencePoint_None:
  assumes "hasEquivalencePoint g I = None" and "snd I \<le> length (eqPoints g (fst I)) - 1"
  shows "\<not> isEquivalencePoint g (getTerminator g (fst I))"
proof
  assume a: "isEquivalencePoint g (getTerminator g (fst I))"
  let ?n = "length (eqPoints g (fst I))"
  from a have "?n - 1 < ?n" "eqPoints g (fst I) ! (?n - 1)"
    by (auto simp: isEquivalencePoint_def getTerminator_def)
  moreover from this assms(2) have "?n - 1 \<in> set [snd I ..< ?n]" by auto
  ultimately show False using assms(1)
    by (auto simp: hasEquivalencePoint_def find_None_iff)
qed

lemma okStep_length: "okStep c v n0 s t \<Longrightarrow> length (CurPaths s) \<le> length (CurPaths t)"
  by (induction rule: okStep.induct)
     (simp_all add: length_addPath CurPaths_markEqPoint CurPaths_markSpanning CurPaths_push
        getSubLoopSuccessors_frame)

lemma okSteps_length: "(okStep c v n0)\<^sup>*\<^sup>* s t \<Longrightarrow> length (CurPaths s) \<le> length (CurPaths t)"
  by (induction rule: rtranclp_induct) (auto dest: okStep_length)

lemma forEach_traced:
  assumes "\<And>x s. x \<in> set xs \<Longrightarrow> k \<le> length (CurPaths s) \<Longrightarrow> traced c v n0 s (body x s)"
    and "k \<le> length (CurPaths st)"
  shows "traced c v n0 st (forEach body xs st)"
  using assms
proof (induction xs arbitrary: st)
  case Nil
  show ?case by (simp add: traced_refl)
next
  case (Cons x xs)
  obtain ok s1 where r: "body x st = (ok, s1)" by force
  have t: "traced c v n0 st (ok, s1)" using Cons.prems(1) [of x st] Cons.prems(2) r by simp
  show ?case
  proof (cases ok)
    case False
    with t r show ?thesis by simp
  next
    case True
    with t have steps: "(okStep c v n0)\<^sup>*\<^sup>* st s1" by (simp add: traced_def)
    with Cons.prems(2) have "k \<le> length (CurPaths s1)" using okSteps_length by fastforce
    then have "traced c v n0 s1 (forEach body xs s1)"
      using Cons.prems(1) by (intro Cons.IH) auto
    with steps have "traced c v n0 st (forEach body xs s1)" by (rule traced_trans)
    with True r show ?thesis by simp
  qed
qed

lemma HasEqPointPath_push_addPath:
  "HasEqPointPath (push x (addPath d P e b st)) = HasEqPointPath st"
  by (simp add: push_def addPath_def)

lemma stopAtSubLoop_traced:
  assumes "P \<noteq> []" and "distinct (map fst P)" and "fst (last P) = BB"
    and "v \<longrightarrow> BB \<notin> set (SubLoopBlocks c) \<longrightarrow>
           \<not> isEquivalencePoint (cfg c) (getTerminator (cfg c) BB)"
    and "Succ \<in> set (successors (cfg c) BB)" and "contains (CurLoop c) Succ"
    and "Succ \<in> set (SubLoopBlocks c)" and "getLoopFor (LI c) Succ = Some S"
    and "\<forall>SLE \<in> set xs. \<exists>Exit \<in> set (getExitingBlocks (cfg c) S).
           SLE = getTerminator (cfg c) Exit \<and> HasEqPointPath st (loopId S) Exit = Some True"
  shows "traced c v n0 st (forEach (stopAtSubLoop c d P BB) xs st)"
  using assms(9)
proof (induction xs arbitrary: st)
  case Nil
  show ?case by (simp add: traced_refl)
next
  case (Cons SLE xs)
  from Cons.prems obtain Exit where ex: "Exit \<in> set (getExitingBlocks (cfg c) S)"
    "SLE = getTerminator (cfg c) Exit" "HasEqPointPath st (loopId S) Exit = Some True" by auto
  let ?st1 = "addPath d P (getTerminator (cfg c) BB) False st"
  show ?case
  proof (cases "length (CurPaths st) < MaxNumPaths c")
    case False
    then have "stopAtSubLoop c d P BB SLE st = (False, ?st1\<lparr>TooManyPaths := True\<rparr>)"
      by (simp add: stopAtSubLoop_def Let_def length_addPath)
    moreover have "failStep c st (?st1\<lparr>TooManyPaths := True\<rparr>)"
      using False by (rule tooManyStep)
    ultimately show ?thesis by (simp add: traced_fail)
  next
    case True
    let ?s = "push SLE ?st1"
    from True have eq: "stopAtSubLoop c d P BB SLE st = (True, ?s)"
      by (simp add: stopAtSubLoop_def Let_def length_addPath)
    have step: "okStep c v n0 st ?s"
      unfolding ex(2)
      using assms(1-8) ex(1,3) True by (rule subLoopStep)
    have "\<forall>SLE \<in> set xs. \<exists>Exit \<in> set (getExitingBlocks (cfg c) S).
           SLE = getTerminator (cfg c) Exit \<and> HasEqPointPath ?s (loopId S) Exit = Some True"
      using Cons.prems by (simp add: HasEqPointPath_push_addPath)
    then have "traced c v n0 ?s (forEach (stopAtSubLoop c d P BB) xs ?s)" by (rule Cons.IH)
    with step have "traced c v n0 st (forEach (stopAtSubLoop c d P BB) xs ?s)"
      by (intro traced_trans [of c v n0 st ?s]) auto
    with eq show ?thesis by simp
  qed
qed

lemma enterSubLoop_traced:
  assumes "P \<noteq> []" and "distinct (map fst P)" and "fst (last P) = BB"
    and "v \<longrightarrow> BB \<notin> set (SubLoopBlocks c) \<longrightarrow>
           \<not> isEquivalencePoint (cfg c) (getTerminator (cfg c) BB)"
    and "Succ \<in> set (successors (cfg c) BB)" and "contains (CurLoop c) Succ"
    and "Succ \<in> set (SubLoopBlocks c)"
    and "n0 \<le> length (CurPaths st)"
    and "\<And>SLE s. SLE \<in> set (fst (snd (getSubLoopSuccessors c Succ st))) \<Longrightarrow>
           n0 \<le> length (CurPaths s) \<Longrightarrow> traced c v n0 s (continue SLE s)"
  shows "traced c v n0 st (enterSubLoop c d P BB continue Succ st)"
proof -
  obtain eq sp s1 where g: "getSubLoopSuccessors c Succ st = (eq, sp, s1)"
    by (cases "getSubLoopSuccessors c Succ st") auto
  have look: "okStep c v n0 st s1"
    using lookupStep [where c = c and v = v and ?n0.0 = n0 and Succ = Succ and st = st] g by simp
  have len1: "n0 \<le> length (CurPaths s1)"
    using assms(8) getSubLoopSuccessors_frame [of c Succ st] g by simp
  have t1: "traced c v n0 s1 (forEach (stopAtSubLoop c d P BB) eq s1)"
  proof (cases "getLoopFor (LI c) Succ")
    case None
    with g have "eq = []" by (simp add: getSubLoopSuccessors_def)
    then show ?thesis by (simp add: traced_refl)
  next
    case (Some S)
    have "\<forall>SLE \<in> set eq. \<exists>Exit \<in> set (getExitingBlocks (cfg c) S).
            SLE = getTerminator (cfg c) Exit \<and> HasEqPointPath s1 (loopId S) Exit = Some True"
      using getSubLoopSuccessors_eqPoint [of _ c Succ st] g Some by fastforce
    with assms(1-7) Some show ?thesis by (rule stopAtSubLoop_traced)
  qed
  obtain ok s2 where f: "forEach (stopAtSubLoop c d P BB) eq s1 = (ok, s2)" by force
  have res: "enterSubLoop c d P BB continue Succ st =
             (if ok then forEach continue sp s2 else (False, s2))"
    by (simp add: enterSubLoop_def g f)
  show ?thesis
  proof (cases ok)
    case False
    with t1 f have "traced c v n0 s1 (False, s2)" by simp
    with look have "traced c v n0 st (False, s2)"
      by (intro traced_trans [of c v n0 st s1]) auto
    with False res show ?thesis by simp
  next
    case True
    with t1 f have steps: "(okStep c v n0)\<^sup>*\<^sup>* s1 s2" by (simp add: traced_def)
    with len1 have len2: "n0 \<le> length (CurPaths s2)" using okSteps_length by fastforce
    have "traced c v n0 s2 (forEach continue sp s2)"
      using assms(9) g len2 by (intro forEach_traced [where k = n0]) auto
    with steps have "traced c v n0 s1 (forEach continue sp s2)" by (rule traced_trans)
    with look have "traced c v n0 st (forEach continue sp s2)"
      by (intro traced_trans [of c v n0 st s1]) auto
    with True res show ?thesis by simp
  qed
qed

lemma pushes_traced:
  assumes "n0 < length (CurPaths st)" and "\<forall>x \<in> set xs. instrOK c x"
  shows "(okStep c v n0)\<^sup>*\<^sup>* st (foldl (\<lambda>s SLE. push SLE s) st xs)"
  using assms
proof (induction xs arbitrary: st)
  case Nil
  show ?case by simp
next
  case (Cons x xs)
  have "okStep c v n0 st (push x st)" using Cons.prems by (intro pushStep) auto
  moreover have "(okStep c v n0)\<^sup>*\<^sup>* (push x st) (foldl (\<lambda>s SLE. push SLE s) (push x st) xs)"
    using Cons.prems by (intro Cons.IH) (auto simp: CurPaths_push)
  ultimately show ?case by simp
qed

lemma CurPaths_pushes: "CurPaths (foldl (\<lambda>s SLE. push SLE s) st xs) = CurPaths st"
  by (induction xs arbitrary: st) (simp_all add: CurPaths_push)

lemma enterSubLoopAfterEqPoint_traced:
  assumes "n0 < length (CurPaths st)"
    and "\<And>SLE s. SLE \<in> set (fst (snd (getSubLoopSuccessors c Succ st))) \<Longrightarrow>
           n0 \<le> length (CurPaths s) \<Longrightarrow> traced c v n0 s (continue SLE s)"
  shows "traced c v n0 st (enterSubLoopAfterEqPoint c continue Succ st)"
proof -
  obtain eq sp s1 where g: "getSubLoopSuccessors c Succ st = (eq, sp, s1)"
    by (cases "getSubLoopSuccessors c Succ st") auto
  have look: "okStep c v n0 st s1"
    using lookupStep [where c = c and v = v and ?n0.0 = n0 and Succ = Succ and st = st] g by simp
  have len1: "n0 < length (CurPaths s1)"
    using assms(1) getSubLoopSuccessors_frame [of c Succ st] g by simp
  let ?s2 = "foldl (\<lambda>s SLE. push SLE s) s1 eq"
  have "\<forall>x \<in> set eq. instrOK c x"
    using getSubLoopSuccessors_eqPoint [of _ c Succ st] g
    by (fastforce simp: instrOK_def getTerminator_def)
  with len1 have p: "(okStep c v n0)\<^sup>*\<^sup>* s1 ?s2" by (rule pushes_traced)
  have "n0 \<le> length (CurPaths ?s2)" using len1 by (simp add: CurPaths_pushes)
  then have "traced c v n0 ?s2 (forEach continue sp ?s2)"
    using assms(2) g by (intro forEach_traced [where k = n0]) auto
  with p have "traced c v n0 s1 (forEach continue sp ?s2)" by (rule traced_trans)
  with look have "traced c v n0 st (forEach continue sp ?s2)"
    by (intro traced_trans [of c v n0 st s1]) auto
  then show ?thesis by (simp add: enterSubLoopAfterEqPoint_def g)
qed

lemma instrOK_front: "instrOK c (front BB)"
  by (simp add: instrOK_def front_def)

lemma instrOK_getNextNode:
  "isEquivalencePoint (cfg c) e \<Longrightarrow> \<not> isTerminator (cfg c) e \<Longrightarrow> instrOK c (getNextNode e)"
  by (auto simp: instrOK_def getNextNode_def isEquivalencePoint_def isTerminator_def)

lemma distinct_extend:
  "distinct (map fst PathNodes) \<Longrightarrow> \<not> pathContains PathNodes BB \<Longrightarrow>
   distinct (map fst (PathNodes @ [(BB, b)]))"
  by (auto simp: pathContains_def)

lemma loopDFS_traced:
  "distinct (map fst PathNodes) \<Longrightarrow> n0 \<le> length (CurPaths st) \<Longrightarrow> (v \<longrightarrow> instrOK c I) \<Longrightarrow>
   traced c v n0 st (loopDFS c d I PathNodes st)"
proof (induction c d I PathNodes st rule: loopDFS.induct)
  case (1 c d I PathNodes st)
  let ?BB = "fst I"
  show ?case
  proof (cases "pathContains PathNodes ?BB")
    case True
    then have "loopDFS c d I PathNodes st = (False, st\<lparr>DetectedCycle := True\<rparr>)"
      by (subst loopDFS.simps) (simp add: Let_def)
    then show ?thesis by (simp add: traced_fail cycleStep)
  next
    case nc: False
    show ?thesis
    proof (cases "?BB \<in> set (SubLoopBlocks c)")
      case inSub: True
      let ?P = "PathNodes @ [(?BB, True)]"
      let ?body = "\<lambda>Succ s.
                 if (case getLoopFor (LI c) ?BB of Some W \<Rightarrow> contains W Succ | None \<Rightarrow> False)
                    \<or> \<not> contains (CurLoop c) Succ
                 then (True, s)
                 else if Succ \<notin> set (SubLoopBlocks c) then loopDFS c d (front Succ) ?P s
                 else enterSubLoop c d ?P ?BB (\<lambda>SLE s'. loopDFS c d SLE ?P s') Succ s"
      have eq: "loopDFS c d I PathNodes st = forEach ?body (successors (cfg c) ?BB) st"
        using nc inSub by (subst loopDFS.simps) (simp add: Let_def)
      have dist: "distinct (map fst ?P)" using "1.prems"(1) nc by (rule distinct_extend)
      have "traced c v n0 s (?body Succ s)"
        if succ: "Succ \<in> set (successors (cfg c) ?BB)" and len: "n0 \<le> length (CurPaths s)"
        for Succ s
      proof (cases "(case getLoopFor (LI c) ?BB of Some W \<Rightarrow> contains W Succ | None \<Rightarrow> False)
                    \<or> \<not> contains (CurLoop c) Succ")
        case True
        then show ?thesis by (simp add: traced_refl)
      next
        case go: False
        show ?thesis
        proof (cases "Succ \<in> set (SubLoopBlocks c)")
          case False
          have "traced c v n0 s (loopDFS c d (front Succ) ?P s)"
            using inSub nc succ go False dist len instrOK_front
            by (intro "1.IH"(4) [where x = ?BB and xb = "getLoopFor (LI c) ?BB"]) simp_all
          with go False show ?thesis by simp
        next
          case sub: True
          have "traced c v n0 s (enterSubLoop c d ?P ?BB (\<lambda>SLE s'. loopDFS c d SLE ?P s') Succ s)"
          proof (rule enterSubLoop_traced)
            show "?P \<noteq> []" by simp
            show "distinct (map fst ?P)" by (rule dist)
            show "fst (last ?P) = ?BB" by simp
            show "v \<longrightarrow> ?BB \<notin> set (SubLoopBlocks c) \<longrightarrow>
                  \<not> isEquivalencePoint (cfg c) (getTerminator (cfg c) ?BB)"
              using inSub by simp
            show "Succ \<in> set (successors (cfg c) ?BB)" by (rule succ)
            show "contains (CurLoop c) Succ" using go by simp
            show "Succ \<in> set (SubLoopBlocks c)" by (rule sub)
            show "n0 \<le> length (CurPaths s)" by (rule len)
            show "traced c v n0 s' (loopDFS c d SLE ?P s')"
              if "SLE \<in> set (fst (snd (getSubLoopSuccessors c Succ s)))"
                and "n0 \<le> length (CurPaths s')" for SLE s'
              using inSub nc succ go sub that dist
                getSubLoopSuccessors_spanning [OF that(1)]
              by (intro "1.IH"(5) [where x = ?BB and xb = "getLoopFor (LI c) ?BB" and xc = Succ
                    and s = s]) simp_all
          qed
          with go sub show ?thesis by simp
        qed
      qed
      then have "traced c v n0 st (forEach ?body (successors (cfg c) ?BB) st)"
        using "1.prems"(2) by (intro forEach_traced [where k = n0]) auto
      with eq show ?thesis by simp
    next
      case notSub: False
      let ?P = "PathNodes @ [(?BB, False)]"
      have dist: "distinct (map fst ?P)" using "1.prems"(1) nc by (rule distinct_extend)
      show ?thesis
      proof (cases "hasEquivalencePoint (cfg c) I")
        case (Some e)
        note e = hasEquivalencePoint_Some [OF Some]
        let ?st1 = "addPath d ?P e False st"
        let ?st2 = "markEqPoint c ?P ?st1"
        show ?thesis
        proof (cases "length (CurPaths st) < MaxNumPaths c")
          case False
          then have "loopDFS c d I PathNodes st = (False, ?st1\<lparr>TooManyPaths := True\<rparr>)"
            using nc notSub Some
            by (subst loopDFS.simps) (simp add: Let_def length_addPath)
          moreover have "failStep c st (?st1\<lparr>TooManyPaths := True\<rparr>)"
            using False by (rule tooManyStep)
          ultimately show ?thesis by (simp add: traced_fail)
        next
          case room: True
          have step: "okStep c v n0 st ?st2"
            using dist e notSub room by (intro eqPointStep) simp_all
          have len2: "n0 < length (CurPaths ?st2)"
            using "1.prems"(2) by (simp add: CurPaths_markEqPoint length_addPath)
          show ?thesis
          proof (cases "isTerminator (cfg c) e")
            case False
            then have "loopDFS c d I PathNodes st = (True, push (getNextNode e) ?st2)"
              using nc notSub Some room
              by (subst loopDFS.simps) (simp add: Let_def length_addPath)
            moreover have "okStep c v n0 ?st2 (push (getNextNode e) ?st2)"
              using len2 e False instrOK_getNextNode [of c e] by (intro pushStep) simp_all
            ultimately show ?thesis
              using step by (simp add: traced_def)
          next
            case atEnd: True
            let ?body = "\<lambda>Succ s.
                           if \<not> contains (CurLoop c) Succ \<or> Succ = getHeader (CurLoop c)
                           then (True, s)
                           else if Succ \<notin> set (SubLoopBlocks c) then (True, push (front Succ) s)
                           else enterSubLoopAfterEqPoint c (\<lambda>SLE s'. loopDFS c d SLE ?P s') Succ s"
            have eq: "loopDFS c d I PathNodes st = forEach ?body (successors (cfg c) ?BB) ?st2"
              using nc notSub Some room atEnd
              by (subst loopDFS.simps) (simp add: Let_def length_addPath)
            have "traced c v n0 s (?body Succ s)"
              if succ: "Succ \<in> set (successors (cfg c) ?BB)"
                and len: "Suc n0 \<le> length (CurPaths s)" for Succ s
            proof (cases "\<not> contains (CurLoop c) Succ \<or> Succ = getHeader (CurLoop c)")
              case True
              then show ?thesis by (simp add: traced_refl)
            next
              case go: False
              show ?thesis
              proof (cases "Succ \<in> set (SubLoopBlocks c)")
                case False
                have "okStep c v n0 s (push (front Succ) s)"
                  using len instrOK_front [of c Succ] by (intro pushStep) simp_all
                with go False show ?thesis by (simp add: traced_ok)
              next
                case sub: True
                have "traced c v n0 s
                        (enterSubLoopAfterEqPoint c (\<lambda>SLE s'. loopDFS c d SLE ?P s') Succ s)"
                proof (rule enterSubLoopAfterEqPoint_traced)
                  show "n0 < length (CurPaths s)" using len by simp
                  show "traced c v n0 s' (loopDFS c d SLE ?P s')"
                    if "SLE \<in> set (fst (snd (getSubLoopSuccessors c Succ s)))"
                      and "n0 \<le> length (CurPaths s')" for SLE s'
                    using notSub nc Some room atEnd succ go sub that dist
                      getSubLoopSuccessors_spanning [OF that(1)]
                    by (intro "1.IH"(3) [where x = ?BB and ?x2.0 = e and xb = ?st1 and xc = ?st2
                          and xba = Succ and s = s])
                       (simp_all add: length_addPath)
                qed
                with go sub show ?thesis by simp
              qed
            qed
            then have "traced c v n0 ?st2 (forEach ?body (successors (cfg c) ?BB) ?st2)"
              using len2 by (intro forEach_traced [where k = "Suc n0"]) auto
            with step have "traced c v n0 st (forEach ?body (successors (cfg c) ?BB) ?st2)"
              by (intro traced_trans [of c v n0 st ?st2]) auto
            with eq show ?thesis by simp
          qed
        qed
      next
        case None
        show ?thesis
        proof (cases "?BB \<in> set (Latches c)")
          case latch: True
          let ?st1 = "addPath d ?P (getTerminator (cfg c) ?BB) True st"
          show ?thesis
          proof (cases "length (CurPaths st) < MaxNumPaths c")
            case False
            then have "loopDFS c d I PathNodes st = (False, ?st1\<lparr>TooManyPaths := True\<rparr>)"
              using nc notSub None latch
              by (subst loopDFS.simps) (simp add: Let_def length_addPath)
            moreover have "failStep c st (?st1\<lparr>TooManyPaths := True\<rparr>)"
              using False by (rule tooManyStep)
            ultimately show ?thesis by (simp add: traced_fail)
          next
            case room: True
            let ?s = "if DFSI_StartsAtHeader d then markSpanning c ?P ?st1 else markEqPoint c ?P ?st1"
            have "loopDFS c d I PathNodes st = (True, ?s)"
              using nc notSub None latch room
              by (subst loopDFS.simps) (simp add: Let_def length_addPath)
            moreover have "okStep c v n0 st ?s"
              using dist latch room by (intro latchStep) simp_all
            ultimately show ?thesis by (simp add: traced_ok)
          qed
        next
          case noLatch: False
          let ?body = "\<lambda>Succ s.
                       if \<not> contains (CurLoop c) Succ then (True, s)
                       else if Succ \<notin> set (SubLoopBlocks c) then loopDFS c d (front Succ) ?P s
                       else enterSubLoop c d ?P ?BB (\<lambda>SLE s'. loopDFS c d SLE ?P s') Succ s"
          have eq: "loopDFS c d I PathNodes st = forEach ?body (successors (cfg c) ?BB) st"
            using nc notSub None noLatch by (subst loopDFS.simps) (simp add: Let_def)
          have noEq: "v \<longrightarrow> \<not> isEquivalencePoint (cfg c) (getTerminator (cfg c) ?BB)"
            using None "1.prems"(3) hasEquivalencePoint_None [of "cfg c" I]
            by (simp add: instrOK_def)
          have "traced c v n0 s (?body Succ s)"
            if succ: "Succ \<in> set (successors (cfg c) ?BB)" and len: "n0 \<le> length (CurPaths s)"
            for Succ s
          proof (cases "contains (CurLoop c) Succ")
            case False
            then show ?thesis by (simp add: traced_refl)
          next
            case go: True
            show ?thesis
            proof (cases "Succ \<in> set (SubLoopBlocks c)")
              case False
              have "traced c v n0 s (loopDFS c d (front Succ) ?P s)"
                using notSub nc None noLatch succ go False dist len instrOK_front
                by (intro "1.IH"(1) [where x = ?BB]) simp_all
              with go False show ?thesis by simp
            next
              case sub: True
              have "traced c v n0 s (enterSubLoop c d ?P ?BB (\<lambda>SLE s'. loopDFS c d SLE ?P s') Succ s)"
              proof (rule enterSubLoop_traced)
                show "?P \<noteq> []" by simp
                show "distinct (map fst ?P)" by (rule dist)
                show "fst (last ?P) = ?BB" by simp
                show "v \<longrightarrow> ?BB \<notin> set (SubLoopBlocks c) \<longrightarrow>
                      \<not> isEquivalencePoint (cfg c) (getTerminator (cfg c) ?BB)"
                  using noEq by simp
                show "Succ \<in> set (successors (cfg c) ?BB)" by (rule succ)
                show "contains (CurLoop c) Succ" by (rule go)
                show "Succ \<in> set (SubLoopBlocks c)" by (rule sub)
                show "n0 \<le> length (CurPaths s)" by (rule len)
                show "traced c v n0 s' (loopDFS c d SLE ?P s')"
                  if "SLE \<in> set (fst (snd (getSubLoopSuccessors c Succ s)))"
                    and "n0 \<le> length (CurPaths s')" for SLE s'
                  using notSub nc None noLatch succ go sub that dist
                    getSubLoopSuccessors_spanning [OF that(1)]
                  by (intro "1.IH"(2) [where x = ?BB and xb = Succ and s = s]) simp_all
              qed
              with go sub show ?thesis by simp
            qed
          qed
          then have "traced c v n0 st (forEach ?body (successors (cfg c) ?BB) st)"
            using "1.prems"(2) by (intro forEach_traced [where k = n0]) auto
          with eq show ?thesis by simp
        qed
      qed
    qed
  qed
qed

lemma NewPaths_addPath: "NewPaths (addPath d P e b st) = NewPaths st"
  by (simp add: addPath_def)

lemma okStep_progress:
  assumes "okStep c v n0 s t"
    and "(CurPaths s = CurPaths st \<and> NewPaths s = NewPaths st) \<or>
         (length (CurPaths st) < length (CurPaths s) \<and> length (CurPaths s) \<le> MaxNumPaths c)"
    and "n0 = length (CurPaths st)"
  shows "(CurPaths t = CurPaths st \<and> NewPaths t = NewPaths st) \<or>
         (length (CurPaths st) < length (CurPaths t) \<and> length (CurPaths t) \<le> MaxNumPaths c)"
  using assms
proof (induction rule: okStep.induct)
  case (eqPointStep P e st' d)
  then show ?case by (auto simp: CurPaths_markEqPoint length_addPath)
next
  case (latchStep P BB st' d)
  then show ?case by (auto simp: CurPaths_markEqPoint CurPaths_markSpanning length_addPath)
next
  case (subLoopStep P BB Succ S Exit st' d)
  then show ?case by (auto simp: CurPaths_push length_addPath)
next
  case (pushStep st' x)
  then show ?case by (auto simp: CurPaths_push)
next
  case (lookupStep st' Succ)
  then show ?case using getSubLoopSuccessors_frame [of c Succ st'] by auto
qed

lemma okSteps_progress:
  assumes "(okStep c v (length (CurPaths st)))\<^sup>*\<^sup>* st s"
  shows "(CurPaths s = CurPaths st \<and> NewPaths s = NewPaths st) \<or>
         (length (CurPaths st) < length (CurPaths s) \<and> length (CurPaths s) \<le> MaxNumPaths c)"
  using assms
proof (induction rule: rtranclp_induct)
  case base
  show ?case by simp
next
  case (step s t)
  from step(2) step(3) show ?case by (rule okStep_progress) simp
qed

lemma loopDFS_progress:
  assumes "loopDFS c d I [] st = (True, s)"
  shows "(CurPaths s = CurPaths st \<and> NewPaths s = NewPaths st) \<or>
         (length (CurPaths st) < length (CurPaths s) \<and> length (CurPaths s) \<le> MaxNumPaths c)"
proof -
  have "traced c False (length (CurPaths st)) st (loopDFS c d I [] st)"
    by (rule loopDFS_traced) simp_all
  with assms have "(okStep c False (length (CurPaths st)))\<^sup>*\<^sup>* st s" by (simp add: traced_def)
  then show ?thesis by (rule okSteps_progress)
qed


subsection \<open>analyzeLoop and runOnFunction\<close>

text \<open>
  The loop of \<open>analyzeLoop\<close> that takes the new starts from the front of \<open>NewPaths\<close>
  until the list is empty. It ends because a search that adds a start has recorded a path
  before, and the number of paths is bounded by the ceiling.
\<close>

function drain :: "Context \<Rightarrow> Analysis \<Rightarrow> bool \<times> Analysis" where
  "drain c st =
     (case NewPaths st of
        [] \<Rightarrow> (True, st)
      | I # rest \<Rightarrow>
          (case loopDFS c \<lparr>DFSI_Start = I, DFSI_StartsAtHeader = False\<rparr> I []
                  (st\<lparr>NewPaths := rest\<rparr>) of
             (False, st1) \<Rightarrow> (False, st1)
           | (True, st1) \<Rightarrow> drain c st1))"
  by pat_completeness auto
termination
proof (relation "measures [\<lambda>(c, st). Suc (MaxNumPaths c) - length (CurPaths st),
                           \<lambda>(c, st). length (NewPaths st)]", goal_cases)
  case 1
  show ?case by simp
next
  case (2 c st I rest x st1)
  then have "loopDFS c \<lparr>DFSI_Start = I, DFSI_StartsAtHeader = False\<rparr> I []
               (st\<lparr>NewPaths := rest\<rparr>) = (True, st1)"
    by simp
  from loopDFS_progress [OF this] 2(1) show ?case by auto
qed

declare drain.simps [simp del]

definition analyzeLoop :: "CFG \<Rightarrow> Loop list \<Rightarrow> nat \<Rightarrow> Loop \<Rightarrow> Analysis \<Rightarrow> bool \<times> Analysis" where
  "analyzeLoop g loops maxPaths L st =
     (let st0 = st\<lparr>CurPaths := [],
                    HasSpPath := (HasSpPath st)(loopId L := Map.empty),
                    HasEqPointPath := (HasEqPointPath st)(loopId L := Map.empty),
                    NewPaths := []\<rparr>;
          c = \<lparr>cfg = g, LI = loops, MaxNumPaths = maxPaths, CurLoop = L,
               Latches = getLoopLatches g L, SubLoopBlocks = getSubBlocks L\<rparr>;
          d = \<lparr>DFSI_Start = front (getHeader L), DFSI_StartsAtHeader = True\<rparr>;
          r = (case loopDFS c d (front (getHeader L)) [] st0 of
                 (False, st1) \<Rightarrow> (False, st1)
               | (True, st1) \<Rightarrow> drain c st1)
      in (fst r, (snd r)\<lparr>Paths := (Paths (snd r))(loopId L \<mapsto> CurPaths (snd r))\<rparr>))"

text \<open>
  The two nested loops of \<open>runOnFunction\<close>: over the loops of a nest, left at the first
  loop whose analysis returns false, and over the nests, left once the analysis has
  failed.
\<close>

fun analyzeNest :: "CFG \<Rightarrow> Loop list \<Rightarrow> nat \<Rightarrow> Loop list \<Rightarrow> Analysis \<Rightarrow> Analysis" where
  "analyzeNest g loops maxPaths [] st = st"
| "analyzeNest g loops maxPaths (L # Nest) st =
     (case analyzeLoop g loops maxPaths L st of
        (False, st1) \<Rightarrow> st1
      | (True, st1) \<Rightarrow> analyzeNest g loops maxPaths Nest st1)"

fun analyzeNests :: "CFG \<Rightarrow> Loop list \<Rightarrow> nat \<Rightarrow> Loop list list \<Rightarrow> Analysis \<Rightarrow> Analysis" where
  "analyzeNests g loops maxPaths [] st = st"
| "analyzeNests g loops maxPaths (Nest # Nests) st =
     (let st1 = analyzeNest g loops maxPaths Nest st in
      if analysisFailed st1 then st1 else analyzeNests g loops maxPaths Nests st1)"

text \<open>
  \<open>runOnFunction\<close>. The iterator of \<open>LoopInfo\<close> ranges over the top-level loops, which
  all have depth 1, so each of them starts a nest. The type \<open>LoopNest\<close> is declared in
  LoopPaths.h, which is not among the sources; the order in which it hands out the loops
  inserted by \<open>populateLoopNest\<close> is the parameter \<open>nestOrder\<close>.
\<close>

definition runOnFunction ::
  "CFG \<Rightarrow> Loop list \<Rightarrow> nat \<Rightarrow> (Loop list \<Rightarrow> Loop list) \<Rightarrow> Analysis \<Rightarrow> Analysis" where
  "runOnFunction g loops maxPaths nestOrder st =
     (let st0 = (reset st)\<lparr>TooManyPaths := False, DetectedCycle := False\<rparr>;
          Nests = map (\<lambda>L. nestOrder (populateLoopNest L)) loops;
          st1 = analyzeNests g loops maxPaths Nests st0;
          st2 = (if TooManyPaths st1 then reset st1 else st1)
      in if DetectedCycle st2 then reset st2 else st2)"

definition rerunOnLoop :: "CFG \<Rightarrow> Loop list \<Rightarrow> nat \<Rightarrow> Loop \<Rightarrow> Analysis \<Rightarrow> Analysis" where
  "rerunOnLoop g loops maxPaths L st =
     (case analyzeLoop g loops maxPaths L st of
        (False, st1) \<Rightarrow> reset st1
      | (True, st1) \<Rightarrow> st1)"


section \<open>Properties of the instrumentation\<close>

subsection \<open>Notions used in the statements\<close>

text \<open>
  A call site the pass instruments (a call site that is not an invoke), the live values
  the pass appends to the marker of a call site, the values it offers to the sorted set
  there (the direct answer of the liveness analysis, then the recovered hidden values),
  and the property of the names and slots of a routine that \<open>ValueComp\<close> tells any two
  different values of a set apart: in a routine no two values share a name, and no two
  unnamed values share a slot.
\<close>

definition instrumentable :: "Instruction \<Rightarrow> bool" where
  "instrumentable i = (isCallSite i \<and> \<not> isInvoke i)"

definition emitted :: "Env \<Rightarrow> HidingMap \<Rightarrow> HidingMap \<Rightarrow> Instruction \<Rightarrow> Value list" where
  "emitted env hI hA call = (if NoLiveVals env then [] else sortedLive env hI hA call)"

definition distinguishable :: "Env \<Rightarrow> Value set \<Rightarrow> bool" where
  "distinguishable env S = (\<forall>a \<in> S. \<forall>b \<in> S. a \<noteq> b \<longrightarrow> ValueComp env a b \<or> ValueComp env b a)"

definition candidates :: "Env \<Rightarrow> HidingMap \<Rightarrow> HidingMap \<Rightarrow> Instruction \<Rightarrow> Value list" where
  "candidates env hiddenInst hiddenArgs call =
     (let live = getLiveValues env (ident call) in
      live
      @ concat (map snd (filter (\<lambda>p. dominates env (fst p) (ident call) \<and> InstV (fst p) \<in> set live)
                                hiddenInst))
      @ concat (map snd (filter (\<lambda>p. InstV (fst p) \<in> set live) hiddenArgs)))"


subsection \<open>Auxiliary lemmas\<close>

lemma ValueComp_irrefl: "\<not> ValueComp env a a"
  by (simp add: ValueComp_def)

lemma ValueComp_trans: "ValueComp env a b \<Longrightarrow> ValueComp env b c \<Longrightarrow> ValueComp env a c"
  by (auto simp: ValueComp_def split: if_splits)

lemma ValueComp_asym: "ValueComp env a b \<Longrightarrow> \<not> ValueComp env b a"
  by (auto simp: ValueComp_def split: if_splits)

lemma set_sortedInsert_subset: "set (sortedInsert env v xs) \<subseteq> insert v (set xs)"
  by (induction xs) auto

lemma set_sortedInsert_mono: "set xs \<subseteq> set (sortedInsert env v xs)"
  by (induction xs) auto

lemma set_sortedInsert:
  "\<forall>x \<in> set xs. x = v \<or> ValueComp env v x \<or> ValueComp env x v \<Longrightarrow>
   set (sortedInsert env v xs) = insert v (set xs)"
  by (induction xs) auto

lemma sorted_sortedInsert:
  "sorted_wrt (ValueComp env) xs \<Longrightarrow> sorted_wrt (ValueComp env) (sortedInsert env v xs)"
proof (induction xs)
  case Nil
  then show ?case by simp
next
  case (Cons x xs)
  show ?case
  proof (cases "ValueComp env v x")
    case True
    then have "\<forall>y \<in> set xs. ValueComp env v y"
      using Cons.prems by (auto intro: ValueComp_trans)
    with True Cons.prems show ?thesis by simp
  next
    case False
    show ?thesis
    proof (cases "ValueComp env x v")
      case True
      have "\<forall>z \<in> set (sortedInsert env v xs). ValueComp env x z"
        using set_sortedInsert_subset [of env v xs] True Cons.prems by auto
      with False True Cons show ?thesis by simp
    next
      case F2: False
      with False Cons.prems show ?thesis by simp
    qed
  qed
qed

lemma sorted_unique:
  "sorted_wrt (ValueComp env) xs \<Longrightarrow> sorted_wrt (ValueComp env) ys \<Longrightarrow> set xs = set ys
   \<Longrightarrow> xs = ys"
proof (induction xs arbitrary: ys)
  case Nil
  then show ?case by simp
next
  case (Cons x xs)
  then obtain y ys' where ys: "ys = y # ys'" by (cases ys) auto
  have xy: "x = y"
  proof (rule ccontr)
    assume ne: "x \<noteq> y"
    with Cons.prems ys have "x \<in> set ys'" "y \<in> set xs" by auto
    with Cons.prems ys have "ValueComp env y x" "ValueComp env x y" by auto
    then show False using ValueComp_asym by blast
  qed
  have "x \<notin> set xs" "y \<notin> set ys'"
    using Cons.prems ys ValueComp_irrefl by auto
  with Cons.prems ys xy have "set xs = set ys'" by auto
  with Cons ys xy show ?case by auto
qed

lemma insertAll_append: "insertAll env (xs @ ys) s = insertAll env ys (insertAll env xs s)"
  by (simp add: insertAll_def)

lemma insertAll_Nil: "insertAll env [] s = s"
  by (simp add: insertAll_def)

lemma insertAll_Cons: "insertAll env (v # vs) s = insertAll env vs (sortedInsert env v s)"
  by (simp add: insertAll_def)

lemma addHiddenInst_eq:
  "addHiddenInst env call live hI s =
   insertAll env (concat (map snd (filter (\<lambda>p. dominates env (fst p) (ident call) \<and> InstV (fst p) \<in> set live) hI))) s"
  unfolding addHiddenInst_def
  by (induction hI arbitrary: s) (simp_all add: insertAll_Nil insertAll_append)

lemma addHiddenArgs_eq:
  "addHiddenArgs env live hA s =
   insertAll env (concat (map snd (filter (\<lambda>p. InstV (fst p) \<in> set live) hA))) s"
  unfolding addHiddenArgs_def
  by (induction hA arbitrary: s) (simp_all add: insertAll_Nil insertAll_append)

lemma sortedLive_eq: "sortedLive env hI hA call = insertAll env (candidates env hI hA call) []"
  by (simp add: sortedLive_def candidates_def Let_def addHiddenInst_eq addHiddenArgs_eq
      insertAll_append)

lemma set_insertAll_subset: "set (insertAll env vs s) \<subseteq> set vs \<union> set s"
proof (induction vs arbitrary: s)
  case Nil
  show ?case by (simp add: insertAll_Nil)
next
  case (Cons v vs)
  have "set (insertAll env vs (sortedInsert env v s)) \<subseteq> set vs \<union> set (sortedInsert env v s)"
    by (rule Cons.IH)
  also have "\<dots> \<subseteq> set vs \<union> insert v (set s)"
    using set_sortedInsert_subset [of env v s] by auto
  finally show ?case by (auto simp: insertAll_Cons)
qed

lemma set_insertAll_mono: "set s \<subseteq> set (insertAll env vs s)"
proof (induction vs arbitrary: s)
  case Nil
  show ?case by (simp add: insertAll_Nil)
next
  case (Cons v vs)
  have "set s \<subseteq> set (sortedInsert env v s)" by (rule set_sortedInsert_mono)
  also have "\<dots> \<subseteq> set (insertAll env vs (sortedInsert env v s))" by (rule Cons.IH)
  finally show ?case by (simp add: insertAll_Cons)
qed

lemma set_insertAll:
  "distinguishable env (set vs \<union> set s) \<Longrightarrow> set (insertAll env vs s) = set vs \<union> set s"
proof (induction vs arbitrary: s)
  case Nil
  show ?case by (simp add: insertAll_Nil)
next
  case (Cons v vs)
  have 1: "set (sortedInsert env v s) = insert v (set s)"
    using Cons.prems by (intro set_sortedInsert) (auto simp: distinguishable_def)
  have "distinguishable env (set vs \<union> set (sortedInsert env v s))"
    using Cons.prems 1 by (auto simp: distinguishable_def)
  from Cons.IH [OF this] 1 show ?case by (auto simp: insertAll_Cons)
qed

lemma sorted_insertAll:
  "sorted_wrt (ValueComp env) s \<Longrightarrow> sorted_wrt (ValueComp env) (insertAll env vs s)"
  by (induction vs arbitrary: s) (simp_all add: insertAll_Nil insertAll_Cons sorted_sortedInsert)

lemma sorted_sortedLive: "sorted_wrt (ValueComp env) (sortedLive env hI hA call)"
  by (simp add: sortedLive_eq sorted_insertAll)

lemma set_sortedLive:
  "distinguishable env (set (candidates env hI hA call)) \<Longrightarrow>
   set (sortedLive env hI hA call) = set (candidates env hI hA call)"
  using set_insertAll [of env "candidates env hI hA call" "[]"] by (simp add: sortedLive_eq)

lemma set_sortedLive_subset:
  "set (sortedLive env hI hA call) \<subseteq> set (candidates env hI hA call)"
  using set_insertAll_subset [of env "candidates env hI hA call" "[]"] by (simp add: sortedLive_eq)

lemma not_isCallSite_makeStackmap: "\<not> isCallSite (makeStackmap args)"
  by (simp add: isCallSite_def isIntrinsicInst_def makeStackmap_def SMName_def)

lemma instrumentBlock_Nil: "instrumentBlock env hI hA ps [] = (ps, [])"
  by (simp add: instrumentBlock.simps)

lemma instrumentBlock_skip:
  "\<not> instrumentable i \<Longrightarrow>
   instrumentBlock env hI hA ps (i # rest) =
     (case instrumentBlock env hI hA ps rest of (ps', r) \<Rightarrow> (ps', i # r))"
  by (subst instrumentBlock.simps) (auto simp: instrumentable_def)

lemma instrumentBlock_site:
  "instrumentable i \<Longrightarrow>
   instrumentBlock env hI hA ps (i # rest) =
     (case instrumentBlock env hI hA
             (ps\<lparr>callSiteID := callSiteID ps + 1, numInstrumented := numInstrumented ps + 1\<rparr>) rest
      of (ps', r) \<Rightarrow>
        (ps', i # makeStackmap ([ConstInt64 (callSiteID ps), ConstInt32 0] @ emitted env hI hA i) # r))"
  apply (subst instrumentBlock.simps)
  apply (simp add: instrumentable_def Let_def emitted_def)
  apply (subst instrumentBlock.simps, simp add: not_isCallSite_makeStackmap split: prod.splits)+
  done

lemma not_instrumentable_makeStackmap: "\<not> instrumentable (makeStackmap args)"
  by (simp add: instrumentable_def not_isCallSite_makeStackmap)

lemma instrumentBlock_shape:
  "instrumentBlock env hI hA ps bb = (ps', bb') \<Longrightarrow> k < length bb' \<Longrightarrow> instrumentable (bb' ! k) \<Longrightarrow>
   Suc k < length bb' \<and>
   bb' ! Suc k =
     makeStackmap ([ConstInt64 (callSiteID ps + of_nat (length (filter instrumentable (take k bb')))),
                    ConstInt32 0] @ emitted env hI hA (bb' ! k))"
proof (induction bb arbitrary: ps ps' k bb')
  case Nil
  then show ?case by (simp add: instrumentBlock_Nil)
next
  case (Cons i rest)
  show ?case
  proof (cases "instrumentable i")
    case False
    obtain ps1 r where r: "instrumentBlock env hI hA ps rest = (ps1, r)" by force
    with False Cons.prems(1) have bb': "bb' = i # r" by (simp add: instrumentBlock_skip)
    from Cons.prems(2,3) False obtain k' where k: "k = Suc k'"
      unfolding bb' by (cases k) auto
    from Cons.prems(2,3) have "k' < length r" "instrumentable (r ! k')"
      unfolding bb' k by simp_all
    from Cons.IH [OF r this] show ?thesis
      unfolding bb' k using False by simp
  next
    case True
    let ?ps1 = "ps\<lparr>callSiteID := callSiteID ps + 1, numInstrumented := numInstrumented ps + 1\<rparr>"
    let ?m = "makeStackmap ([ConstInt64 (callSiteID ps), ConstInt32 0] @ emitted env hI hA i)"
    obtain ps2 r where r: "instrumentBlock env hI hA ?ps1 rest = (ps2, r)" by force
    with True Cons.prems(1) have bb': "bb' = i # ?m # r" by (simp add: instrumentBlock_site)
    show ?thesis
    proof (cases k)
      case 0
      show ?thesis unfolding bb' 0 by simp
    next
      case (Suc k1)
      note k = Suc
      show ?thesis
      proof (cases k1)
        case 0
        from Cons.prems(3) show ?thesis
          unfolding bb' k 0 using not_instrumentable_makeStackmap by simp
      next
        case (Suc k2)
        from Cons.prems(2,3) have "k2 < length r" "instrumentable (r ! k2)"
          unfolding bb' k Suc by simp_all
        from Cons.IH [OF r this] show ?thesis
          unfolding bb' k Suc using True not_instrumentable_makeStackmap
          by (simp add: add.assoc)
      qed
    qed
  qed
qed


lemma instrumentBlock_id:
  "callSiteID (fst (instrumentBlock env hI hA ps bb)) =
   callSiteID ps + of_nat (length (filter instrumentable bb))"
proof (induction bb arbitrary: ps)
  case Nil
  show ?case by (simp add: instrumentBlock_Nil)
next
  case (Cons i rest)
  show ?case
  proof (cases "instrumentable i")
    case True
    let ?ps1 = "ps\<lparr>callSiteID := callSiteID ps + 1, numInstrumented := numInstrumented ps + 1\<rparr>"
    obtain ps2 r where r: "instrumentBlock env hI hA ?ps1 rest = (ps2, r)" by force
    from True r Cons.IH [of ?ps1] show ?thesis
      by (simp add: instrumentBlock_site add.assoc split: prod.splits)
  next
    case False
    obtain ps2 r where r: "instrumentBlock env hI hA ps rest = (ps2, r)" by force
    from False r Cons.IH [of ps] show ?thesis
      by (simp add: instrumentBlock_skip split: prod.splits)
  qed
qed

lemma instrumentBlock_append:
  "instrumentBlock env hI hA ps (xs @ ys) =
   (case instrumentBlock env hI hA ps xs of (ps1, xs') \<Rightarrow>
      (case instrumentBlock env hI hA ps1 ys of (ps2, ys') \<Rightarrow> (ps2, xs' @ ys')))"
proof (induction xs arbitrary: ps)
  case Nil
  show ?case by (simp add: instrumentBlock_Nil split: prod.splits)
next
  case (Cons i rest)
  show ?case
  proof (cases "instrumentable i")
    case True
    let ?ps1 = "ps\<lparr>callSiteID := callSiteID ps + 1, numInstrumented := numInstrumented ps + 1\<rparr>"
    obtain ps2 r where r: "instrumentBlock env hI hA ?ps1 rest = (ps2, r)" by force
    from True r Cons.IH [of ?ps1] show ?thesis
      by (simp add: instrumentBlock_site add.assoc split: prod.splits)
  next
    case False
    obtain ps2 r where r: "instrumentBlock env hI hA ps rest = (ps2, r)" by force
    from False r Cons.IH [of ps] show ?thesis
      by (simp add: instrumentBlock_skip split: prod.splits)
  qed
qed

lemma instrumentBlocks_concat:
  "instrumentBlocks env hI hA ps bbs = (ps', bbs') \<Longrightarrow>
   instrumentBlock env hI hA ps (concat bbs) = (ps', concat bbs')"
proof (induction bbs arbitrary: ps ps' bbs')
  case Nil
  then show ?case by (simp add: instrumentBlock_Nil)
next
  case (Cons b bs)
  then show ?case
    by (auto simp: instrumentBlock_append split: prod.splits)
qed















lemma instrumentFunction_shape:
  assumes "instrumentFunction env ps f = (ps', f')"
    and "k < length (instructions f')" and "instrumentable (instructions f' ! k)"
  shows "Suc k < length (instructions f') \<and>
         instructions f' ! Suc k =
           makeStackmap ([ConstInt64 (callSiteID ps +
                            of_nat (length (filter instrumentable (take k (instructions f'))))),
                          ConstInt32 0]
                         @ emitted env (fst (getHiddenVals f)) (snd (getHiddenVals f))
                             (instructions f' ! k))"
proof (cases "isDeclaration f")
  case True
  with assms(1) have "f' = f" by (simp add: instrumentFunction_def)
  with True assms(2) show ?thesis by (simp add: isDeclaration_def instructions_def)
next
  case False
  obtain hI hA where h: "getHiddenVals f = (hI, hA)" by force
  obtain ps1 bs' where 1: "instrumentBlocks env hI hA ps (blocks f) = (ps1, bs')" by force
  from False h 1 assms(1) have f': "instructions f' = concat bs'"
    by (auto simp: instrumentFunction_def instructions_def)
  from instrumentBlock_shape [OF instrumentBlocks_concat [OF 1], of k] assms(2,3) h
  show ?thesis unfolding f' by simp
qed

lemma instrumentFunction_id:
  "instrumentFunction env ps f = (ps', f') \<Longrightarrow> callSiteID ps = 0 \<Longrightarrow> callSiteID ps' = 0"
  by (auto simp: instrumentFunction_def split: if_splits prod.splits)

lemma instrumentFunctions_shape:
  "instrumentFunctions env ps M = (ps', M') \<Longrightarrow> callSiteID ps = 0 \<Longrightarrow> f' \<in> set M' \<Longrightarrow>
   k < length (instructions f') \<Longrightarrow> instrumentable (instructions f' ! k) \<Longrightarrow>
   \<exists>f \<in> set M.
     Suc k < length (instructions f') \<and>
     instructions f' ! Suc k =
       makeStackmap ([ConstInt64 (of_nat (length (filter instrumentable (take k (instructions f'))))),
                      ConstInt32 0]
                     @ emitted env (fst (getHiddenVals f)) (snd (getHiddenVals f))
                         (instructions f' ! k))"
proof (induction M arbitrary: ps ps' M')
  case Nil
  then show ?case by simp
next
  case (Cons g gs)
  obtain ps1 g' where 1: "instrumentFunction env ps g = (ps1, g')" by force
  obtain ps2 gs' where 2: "instrumentFunctions env ps1 gs = (ps2, gs')" by force
  from Cons.prems(1) 1 2 have M': "M' = g' # gs'" and "ps' = ps2" by simp_all
  from instrumentFunction_id [OF 1 Cons.prems(2)] have z: "callSiteID ps1 = 0" .
  from Cons.prems(3) M' consider "f' = g'" | "f' \<in> set gs'" by auto
  then show ?case
  proof cases
    case 1
    from instrumentFunction_shape [OF \<open>instrumentFunction env ps g = (ps1, g')\<close>, of k]
      Cons.prems(2,4,5) 1
    show ?thesis by simp
  next
    case 2
    from Cons.IH [OF \<open>instrumentFunctions env ps1 gs = (ps2, gs')\<close> z 2 Cons.prems(4,5)]
    show ?thesis by auto
  qed
qed

lemma sorted_wrt_partition:
  "sorted_wrt R xs \<Longrightarrow> (\<And>a b. R a b \<Longrightarrow> P b \<Longrightarrow> P a) \<Longrightarrow>
   xs = filter P xs @ filter (\<lambda>x. \<not> P x) xs"
proof (induction xs)
  case Nil
  show ?case by simp
next
  case (Cons x xs)
  show ?case
  proof (cases "P x")
    case True
    with Cons show ?thesis by simp
  next
    case False
    with Cons.prems have "\<forall>y \<in> set xs. \<not> P y" by auto
    then have "filter P xs = []" "filter (\<lambda>x. \<not> P x) xs = xs" by (simp_all add: filter_empty_conv)
    with False show ?thesis by simp
  qed
qed

lemma sorted_names:
  "sorted_wrt (ValueComp env) xs \<Longrightarrow>
   sorted_wrt (<) (map (\<lambda>v. the (getName env v)) (filter (hasName env) xs))"
proof -
  assume "sorted_wrt (ValueComp env) xs"
  then have "sorted_wrt (ValueComp env) (filter (hasName env) xs)"
    by (rule sorted_wrt_filter)
  then have "sorted_wrt (\<lambda>a b. the (getName env a) < the (getName env b)) (filter (hasName env) xs)"
    by (rule sorted_wrt_mono_rel [rotated]) (auto simp: ValueComp_def)
  then show ?thesis by (simp add: sorted_wrt_map)
qed

lemma sorted_slots:
  "sorted_wrt (ValueComp env) xs \<Longrightarrow>
   sorted_wrt (<) (map (getLocalSlot env) (filter (\<lambda>v. \<not> hasName env v) xs))"
proof -
  assume "sorted_wrt (ValueComp env) xs"
  then have "sorted_wrt (ValueComp env) (filter (\<lambda>v. \<not> hasName env v) xs)"
    by (rule sorted_wrt_filter)
  then have "sorted_wrt (\<lambda>a b. getLocalSlot env a < getLocalSlot env b) (filter (\<lambda>v. \<not> hasName env v) xs)"
    by (rule sorted_wrt_mono_rel [rotated]) (auto simp: ValueComp_def)
  then show ?thesis by (simp add: sorted_wrt_map)
qed

lemma ValueComp_cong:
  "getName env2 = getName env \<Longrightarrow> getLocalSlot env2 = getLocalSlot env \<Longrightarrow>
   ValueComp env2 = ValueComp env"
  by (intro ext) (simp add: ValueComp_def hasName_def)

lemma set_candidates:
  "set (candidates env hI hA call) =
     set (getLiveValues env (ident call))
     \<union> {v. \<exists>p \<in> set hI. dominates env (fst p) (ident call) \<and>
                 InstV (fst p) \<in> set (getLiveValues env (ident call)) \<and> v \<in> set (snd p)}
     \<union> {v. \<exists>p \<in> set hA. InstV (fst p) \<in> set (getLiveValues env (ident call)) \<and> v \<in> set (snd p)}"
  by (auto simp: candidates_def Let_def)

section \<open>Claims about the instrumentation\<close>

subsection \<open>Example routines\<close>

text \<open>
  The routine \<open>exampleF\<close> has one parameter \<open>%n\<close> and the instructions
  \<^verbatim>\<open>%0 = alloca; %1 = load; %p = getelementptr %0, %n; call g(%p); use %p, %1; ret\<close>.
  After the call the liveness analysis answers \<open>%p\<close> and \<open>%1\<close>; an instruction dominates
  the later ones of the block.
\<close>

definition exampleEnv :: Env where
  "exampleEnv =
     \<lparr>getLiveValues = (\<lambda>c. if c = 3 then [InstV 2, InstV 1] else []),
      dominates = (\<lambda>a b. a < b),
      getName = (\<lambda>v. if v = ArgV 0 then Some ''n'' else if v = InstV 2 then Some ''p'' else None),
      getLocalSlot = (\<lambda>v. case v of InstV n \<Rightarrow> int n | _ \<Rightarrow> - 1),
      NoLiveVals = False\<rparr>"

definition exampleF :: Function where
  "exampleF =
     \<lparr>fname = ''f'',
      blocks =
        [[\<lparr>ident = 0, opcode = OtherInst, operands = []\<rparr>,
          \<lparr>ident = 1, opcode = OtherInst, operands = []\<rparr>,
          \<lparr>ident = 2, opcode = GetElementPtrInst, operands = [InstV 0, ArgV 0]\<rparr>,
          \<lparr>ident = 3, opcode = CallInst (Some ''g''), operands = [InstV 2]\<rparr>,
          \<lparr>ident = 4, opcode = OtherInst, operands = [InstV 2, InstV 1]\<rparr>,
          \<lparr>ident = 5, opcode = OtherInst, operands = []\<rparr>]]\<rparr>"

definition exampleHI :: HidingMap where
  "exampleHI = fst (getHiddenVals exampleF)"

definition exampleHA :: HidingMap where
  "exampleHA = snd (getHiddenVals exampleF)"

definition exampleOut :: BasicBlock where
  "exampleOut = snd (instrumentBlock exampleEnv exampleHI exampleHA newPass (hd (blocks exampleF)))"

text \<open>
  The routine \<open>loopF\<close> has one parameter \<open>%n\<close> and a block that is a loop of its own:
  \<^verbatim>\<open>%0 = alloca; %1 = phi [%0, %4]; %p = getelementptr %1, %n; call g(%p); %4 = use %p; br\<close>.
  The second operand of the phi is defined after the phi and does not dominate it. After
  the call the liveness analysis answers \<open>%p\<close> alone.
\<close>

definition loopEnv :: Env where
  "loopEnv = exampleEnv\<lparr>getLiveValues := (\<lambda>c. if c = 3 then [InstV 2] else [])\<rparr>"

definition loopF :: Function where
  "loopF =
     \<lparr>fname = ''l'',
      blocks =
        [[\<lparr>ident = 0, opcode = OtherInst, operands = []\<rparr>,
          \<lparr>ident = 1, opcode = OtherInst, operands = [InstV 0, InstV 4]\<rparr>,
          \<lparr>ident = 2, opcode = GetElementPtrInst, operands = [InstV 1, ArgV 0]\<rparr>,
          \<lparr>ident = 3, opcode = CallInst (Some ''g''), operands = [InstV 2]\<rparr>,
          \<lparr>ident = 4, opcode = OtherInst, operands = [InstV 2]\<rparr>,
          \<lparr>ident = 5, opcode = OtherInst, operands = []\<rparr>]]\<rparr>"

definition loopOut :: BasicBlock where
  "loopOut =
     snd (instrumentBlock loopEnv (fst (getHiddenVals loopF)) (snd (getHiddenVals loopF)) newPass
            (hd (blocks loopF)))"

text \<open>A routine with two calls and no other instruction but its return, and a routine
  that only returns.\<close>

definition twoCalls :: Function where
  "twoCalls =
     \<lparr>fname = ''two'',
      blocks =
        [[\<lparr>ident = 0, opcode = CallInst (Some ''g''), operands = []\<rparr>,
          \<lparr>ident = 1, opcode = CallInst (Some ''h''), operands = []\<rparr>,
          \<lparr>ident = 2, opcode = OtherInst, operands = []\<rparr>]]\<rparr>"

definition twoCallsOut :: Function where
  "twoCallsOut =
     \<lparr>fname = ''two'',
      blocks =
        [[\<lparr>ident = 0, opcode = CallInst (Some ''g''), operands = []\<rparr>,
          \<lparr>ident = 0, opcode = CallInst (Some ''llvm.experimental.pcn.stackmap''),
           operands = [ConstInt64 0, ConstInt32 0]\<rparr>,
          \<lparr>ident = 1, opcode = CallInst (Some ''h''), operands = []\<rparr>,
          \<lparr>ident = 0, opcode = CallInst (Some ''llvm.experimental.pcn.stackmap''),
           operands = [ConstInt64 1, ConstInt32 0]\<rparr>,
          \<lparr>ident = 2, opcode = OtherInst, operands = []\<rparr>]]\<rparr>"


text \<open>
  A routine whose block starts with two marker calls of an earlier run, followed by a
  call and the return; and the module after one and after two runs of the pass.
\<close>

definition staleF :: Function where
  "staleF =
     \<lparr>fname = ''s'',
      blocks =
        [[makeStackmap [ConstInt64 0, ConstInt32 0],
          makeStackmap [ConstInt64 1, ConstInt32 0],
          \<lparr>ident = 7, opcode = CallInst (Some ''g''), operands = []\<rparr>,
          \<lparr>ident = 8, opcode = OtherInst, operands = []\<rparr>]]\<rparr>"

definition staleRun1 :: "bool \<times> PassState \<times> Module" where
  "staleRun1 = runOnModule exampleEnv newPass [staleF]"

definition staleRun2 :: "bool \<times> PassState \<times> Module" where
  "staleRun2 = runOnModule exampleEnv (fst (snd staleRun1)) (snd (snd staleRun1))"

definition countStackmaps :: "Module \<Rightarrow> nat" where
  "countStackmaps M = length (filter isStackmap (concat (map instructions M)))"

subsection \<open>C5: recovery of hidden values\<close>

text \<open>
  C5. At an instrumented call site \<open>bb' ! k\<close> of a routine \<open>f\<close>, with \<open>L\<close> the live values
  of its marker, and for a structural instruction \<open>h\<close> of \<open>f\<close> whose result is in the answer
  of the liveness analysis for the call: every parameter among the operands of \<open>h\<close> is in
  \<open>L\<close>, without any test of dominance. An instruction result \<open>d\<close> that is in \<open>L\<close> without
  being directly live is there only if the instruction \<open>d\<close> dominates the call: this holds
  where the operands of the structural instructions dominate them (none of them is a phi,
  so this is the rule of definitions and uses; nothing is asked of the other instructions
  of the routine) and dominance towards the call is transitive. The test of the source is
  on the structural instruction: an instruction operand of \<open>h\<close> is in \<open>L\<close> when \<open>h\<close>
  dominates the call, and an instruction result in \<open>L\<close> that is not directly live is an
  operand of a structural instruction that is live and dominates the call.
\<close>

theorem hidden_operands_recovered:
  assumes "\<not> NoLiveVals env"
    and "getHiddenVals f = (hI, hA)"
    and "instrumentBlock env hI hA ps bb = (ps', bb')"
    and "k < length bb'" and "isCallSite (bb' ! k)" and "\<not> isInvoke (bb' ! k)"
    and "distinguishable env (set (candidates env hI hA (bb' ! k)))"
    and "h \<in> set (instructions f)" and "hidesValues h"
    and "InstV (ident h) \<in> set (getLiveValues env (ident (bb' ! k)))"
    and "L = drop 2 (operands (bb' ! Suc k))"
    and "c = ident (bb' ! k)"
  shows "(\<forall>a. ArgV a \<in> set (operands h) \<longrightarrow> ArgV a \<in> set L) \<and>
         ((\<forall>h' \<in> set (instructions f). hidesValues h' \<longrightarrow>
              (\<forall>d. InstV d \<in> set (operands h') \<longrightarrow> dominates env d (ident h')))
            \<longrightarrow> (\<forall>d h'. dominates env d h' \<longrightarrow> dominates env h' c \<longrightarrow> dominates env d c)
            \<longrightarrow> (\<forall>d. InstV d \<in> set L \<longrightarrow> InstV d \<notin> set (getLiveValues env c) \<longrightarrow> dominates env d c)) \<and>
         (\<forall>d. InstV d \<in> set (operands h) \<longrightarrow> dominates env (ident h) c \<longrightarrow> InstV d \<in> set L) \<and>
         (\<forall>d. InstV d \<in> set L \<longrightarrow> InstV d \<notin> set (getLiveValues env c) \<longrightarrow>
              (\<exists>h' \<in> set (instructions f). hidesValues h' \<and> InstV d \<in> set (operands h') \<and>
                  InstV (ident h') \<in> set (getLiveValues env c) \<and> dominates env (ident h') c))"
proof -
  let ?live = "getLiveValues env c"
  have ins: "instrumentable (bb' ! k)"
    using assms(5,6) by (simp add: instrumentable_def)
  from instrumentBlock_shape [OF assms(3,4) ins] assms(1,11)
  have L: "L = sortedLive env hI hA (bb' ! k)"
    by (simp add: emitted_def makeStackmap_def)
  have setL: "set L = set (candidates env hI hA (bb' ! k))"
    unfolding L using assms(7) by (rule set_sortedLive)
  have hI: "hI = map (\<lambda>i. (ident i, if hidesValues i then filter isInstV (operands i) else []))
                     (instructions f)"
    and hA: "hA = map (\<lambda>i. (ident i, if hidesValues i then filter isArgV (operands i) else []))
                     (instructions f)"
    using assms(2) by (auto simp: getHiddenVals_def)
  have pA: "(ident h, filter isArgV (operands h)) \<in> set hA"
    and pI: "(ident h, filter isInstV (operands h)) \<in> set hI"
    unfolding hA hI using assms(8,9) by (auto simp: image_iff intro!: bexI [of _ h])
  have 1: "ArgV a \<in> set L" if "ArgV a \<in> set (operands h)" for a
  proof -
    have "ArgV a \<in> set (snd (ident h, filter isArgV (operands h)))" using that by simp
    with pA assms(10) show ?thesis
      unfolding setL set_candidates by (intro UnI2 CollectI bexI [OF _ pA]) simp
  qed
  have 2: "InstV d \<in> set L" if "InstV d \<in> set (operands h)" "dominates env (ident h) c" for d
  proof -
    have "InstV d \<in> set (snd (ident h, filter isInstV (operands h)))" using that by simp
    with pI assms(10) that(2) show ?thesis
      unfolding setL set_candidates by (intro UnI1 UnI2 CollectI bexI [OF _ pI]) (simp add: assms(12))
  qed
  have 3: "\<exists>h' \<in> set (instructions f). hidesValues h' \<and> InstV d \<in> set (operands h') \<and>
                  InstV (ident h') \<in> set ?live \<and> dominates env (ident h') c"
    if d: "InstV d \<in> set L" "InstV d \<notin> set ?live" for d
  proof -
    from d consider
        (I) p where "p \<in> set hI" "dominates env (fst p) c" "InstV (fst p) \<in> set ?live"
                    "InstV d \<in> set (snd p)"
      | (A) p where "p \<in> set hA" "InstV d \<in> set (snd p)"
      unfolding setL set_candidates assms(12) by auto
    then show ?thesis
    proof cases
      case I
      from I(1) obtain h' where "h' \<in> set (instructions f)"
        "p = (ident h', if hidesValues h' then filter isInstV (operands h') else [])"
        unfolding hI by auto
      with I(2,3,4) show ?thesis by (auto split: if_splits)
    next
      case A
      from A(1) obtain h' where "h' \<in> set (instructions f)"
        "p = (ident h', if hidesValues h' then filter isArgV (operands h') else [])"
        unfolding hA by auto
      with A(2) show ?thesis by (auto split: if_splits)
    qed
  qed
  have 4: "dominates env d c"
    if ssa: "\<forall>h' \<in> set (instructions f). hidesValues h' \<longrightarrow>
               (\<forall>d. InstV d \<in> set (operands h') \<longrightarrow> dominates env d (ident h'))"
      and tr: "\<forall>d h'. dominates env d h' \<longrightarrow> dominates env h' c \<longrightarrow> dominates env d c"
      and d: "InstV d \<in> set L" "InstV d \<notin> set ?live" for d
  proof -
    from 3 [OF d] obtain h' where "h' \<in> set (instructions f)" "hidesValues h'"
      "InstV d \<in> set (operands h')" "dominates env (ident h') c" by blast
    with ssa tr show ?thesis by blast
  qed
  from 1 2 3 4 show ?thesis by blast
qed

theorem hidden_operands_recovered_witness:
  "ArgV 0 \<in> set (operands (instructions loopF ! 2)) \<and>
   InstV 1 \<in> set (operands (instructions loopF ! 2)) \<and>
   InstV 4 \<in> set (operands (instructions loopF ! 1)) \<and> \<not> dominates loopEnv 4 1 \<and>
   InstV 1 \<notin> set (getLiveValues loopEnv (ident (loopOut ! 3))) \<and>
   drop 2 (operands (loopOut ! Suc 3)) = [ArgV 0, InstV 2, InstV 1] \<and>
   dominates loopEnv 1 (ident (loopOut ! 3))"
proof -
  let ?hI = "fst (getHiddenVals loopF)"
  let ?hA = "snd (getHiddenVals loopF)"
  let ?h = "instructions loopF ! 2"
  let ?c = "ident (loopOut ! 3)"
  let ?L = "drop 2 (operands (loopOut ! Suc 3))"
  have 1: "\<not> NoLiveVals loopEnv" by (simp add: loopEnv_def exampleEnv_def)
  have 2: "getHiddenVals loopF = (?hI, ?hA)" by simp
  have 3: "instrumentBlock loopEnv ?hI ?hA newPass (hd (blocks loopF)) =
           (fst (instrumentBlock loopEnv ?hI ?hA newPass (hd (blocks loopF))), loopOut)"
    by (simp add: loopOut_def)
  have 4: "3 < length loopOut" by code_simp
  have 5: "isCallSite (loopOut ! 3)" by code_simp
  have 6: "\<not> isInvoke (loopOut ! 3)" by code_simp
  have 7: "distinguishable loopEnv (set (candidates loopEnv ?hI ?hA (loopOut ! 3)))"
    by code_simp
  have 8: "?h \<in> set (instructions loopF)" by code_simp
  have 9: "hidesValues ?h" by code_simp
  have 10: "InstV (ident ?h) \<in> set (getLiveValues loopEnv (ident (loopOut ! 3)))"
    by code_simp
  have a: "ArgV 0 \<in> set (operands ?h)" by code_simp
  have b: "InstV 1 \<in> set (operands ?h)" by code_simp
  have p: "InstV 4 \<in> set (operands (instructions loopF ! 1))" "\<not> dominates loopEnv 4 1"
    by code_simp+
  have c: "dominates loopEnv (ident ?h) ?c" by code_simp
  have d: "InstV 1 \<notin> set (getLiveValues loopEnv ?c)" by code_simp
  have l: "?L = [ArgV 0, InstV 2, InstV 1]" by code_simp
  have ssa: "\<forall>h' \<in> set (instructions loopF). hidesValues h' \<longrightarrow>
               (\<forall>d. InstV d \<in> set (operands h') \<longrightarrow> dominates loopEnv d (ident h'))"
    by (simp add: loopF_def loopEnv_def exampleEnv_def instructions_def hidesValues_def)
  have tr: "\<forall>d h'. dominates loopEnv d h' \<longrightarrow> dominates loopEnv h' ?c \<longrightarrow>
               dominates loopEnv d ?c"
    by (simp add: loopEnv_def exampleEnv_def)
  note t = hidden_operands_recovered [OF 1 2 3 4 5 6 7 8 9 10 refl refl]
  from t a have r1: "ArgV 0 \<in> set ?L" by blast
  from t b c have r2: "InstV 1 \<in> set ?L" by blast
  from t ssa tr r2 d have r3: "dominates loopEnv 1 ?c" by blast
  from a b p d l r3 show ?thesis by blast
qed

subsection \<open>C6: the result of the pass\<close>




subsection \<open>C7: the order of the live values\<close>

text \<open>
  C7. At an instrumented call site, the live values \<open>L\<close> of the marker are the named
  values, in ascending order of their names, followed by the unnamed values, in ascending
  order of their slots. The sequence depends only on the set of values offered to the
  sorted set, not on the order in which the liveness analysis and the hiding tables
  enumerate them: every call site, hiding tables and liveness answer that offer the same
  set of values under the same names and slots yield the sequence \<open>L\<close>, provided the names
  and slots tell the values of the set apart.
\<close>

theorem live_list_order:
  assumes "\<not> NoLiveVals env"
    and "instrumentBlock env hI hA ps bb = (ps', bb')"
    and "k < length bb'" and "isCallSite (bb' ! k)" and "\<not> isInvoke (bb' ! k)"
    and "L = drop 2 (operands (bb' ! Suc k))"
  shows "L = filter (hasName env) L @ filter (\<lambda>v. \<not> hasName env v) L \<and>
         sorted_wrt (<) (map (\<lambda>v. the (getName env v)) (filter (hasName env) L)) \<and>
         sorted_wrt (<) (map (getLocalSlot env) (filter (\<lambda>v. \<not> hasName env v) L)) \<and>
         (\<forall>env2 hI2 hA2 call2.
            getName env2 = getName env \<and> getLocalSlot env2 = getLocalSlot env \<and>
            set (candidates env2 hI2 hA2 call2) = set (candidates env hI hA (bb' ! k)) \<and>
            distinguishable env (set (candidates env hI hA (bb' ! k)))
            \<longrightarrow> sortedLive env2 hI2 hA2 call2 = L)"
proof -
  have ins: "instrumentable (bb' ! k)"
    using assms(4,5) by (simp add: instrumentable_def)
  from instrumentBlock_shape [OF assms(2,3) ins] assms(1,6)
  have L: "L = sortedLive env hI hA (bb' ! k)"
    by (simp add: emitted_def makeStackmap_def)
  have s: "sorted_wrt (ValueComp env) L" unfolding L by (rule sorted_sortedLive)
  have 1: "L = filter (hasName env) L @ filter (\<lambda>v. \<not> hasName env v) L"
    using s by (rule sorted_wrt_partition) (auto simp: ValueComp_def split: if_splits)
  have 4: "sortedLive env2 hI2 hA2 call2 = L"
    if a: "getName env2 = getName env" "getLocalSlot env2 = getLocalSlot env"
      "set (candidates env2 hI2 hA2 call2) = set (candidates env hI hA (bb' ! k))"
      "distinguishable env (set (candidates env hI hA (bb' ! k)))"
    for env2 hI2 hA2 call2
  proof -
    have vc: "ValueComp env2 = ValueComp env" using a(1,2) by (rule ValueComp_cong)
    have d2: "distinguishable env2 (set (candidates env2 hI2 hA2 call2))"
      using a(3,4) by (simp add: distinguishable_def vc)
    have "sorted_wrt (ValueComp env) (sortedLive env2 hI2 hA2 call2)"
      using sorted_sortedLive [of env2 hI2 hA2 call2] by (simp add: vc)
    moreover have "set (sortedLive env2 hI2 hA2 call2) = set L"
      unfolding L using set_sortedLive [OF d2] set_sortedLive [OF a(4)] a(3) by simp
    ultimately show ?thesis using s by (intro sorted_unique [of env]) simp_all
  qed
  from 1 sorted_names [OF s] sorted_slots [OF s] 4 show ?thesis by blast
qed

theorem live_list_order_witness:
  "drop 2 (operands (exampleOut ! Suc 3)) = [ArgV 0, InstV 2, InstV 0, InstV 1] \<and>
   map (\<lambda>v. the (getName exampleEnv v)) (filter (hasName exampleEnv) (drop 2 (operands (exampleOut ! Suc 3))))
     = [''n'', ''p''] \<and>
   sortedLive (exampleEnv\<lparr>getLiveValues := (\<lambda>c. [InstV 1, InstV 2])\<rparr>) (rev exampleHI) (rev exampleHA)
      (exampleOut ! 3) = drop 2 (operands (exampleOut ! Suc 3))"
proof -
  let ?L = "drop 2 (operands (exampleOut ! Suc 3))"
  let ?env2 = "exampleEnv\<lparr>getLiveValues := (\<lambda>c. [InstV 1, InstV 2])\<rparr>"
  have 1: "\<not> NoLiveVals exampleEnv" by (simp add: exampleEnv_def)
  have 3: "instrumentBlock exampleEnv exampleHI exampleHA newPass (hd (blocks exampleF)) =
           (fst (instrumentBlock exampleEnv exampleHI exampleHA newPass (hd (blocks exampleF))),
            exampleOut)"
    by (simp add: exampleOut_def)
  have 4: "3 < length exampleOut" by code_simp
  have 5: "isCallSite (exampleOut ! 3)" by code_simp
  have 6: "\<not> isInvoke (exampleOut ! 3)" by code_simp
  have 7: "distinguishable exampleEnv (set (candidates exampleEnv exampleHI exampleHA (exampleOut ! 3)))"
    by code_simp
  have 8: "getName ?env2 = getName exampleEnv" "getLocalSlot ?env2 = getLocalSlot exampleEnv"
    by simp_all
  have 9: "set (candidates ?env2 (rev exampleHI) (rev exampleHA) (exampleOut ! 3)) =
           set (candidates exampleEnv exampleHI exampleHA (exampleOut ! 3))"
    by code_simp
  have a: "?L = [ArgV 0, InstV 2, InstV 0, InstV 1]" by code_simp
  have b: "map (\<lambda>v. the (getName exampleEnv v)) (filter (hasName exampleEnv) ?L) = [''n'', ''p'']"
    by code_simp
  note t = live_list_order [OF 1 3 4 5 6 refl]
  from t 7 8 9 have "sortedLive ?env2 (rev exampleHI) (rev exampleHA) (exampleOut ! 3) = ?L"
    by blast
  with a b show ?thesis by blast
qed

subsection \<open>C8: a second run of the pass\<close>

text \<open>
  C8. The cleanup goes on at the second instruction of a block after an erasure, so of
  two marker calls at the start of a block only the first is erased. On the routine
  \<open>staleF\<close> the first run leaves two marker calls (one of them stale); the second run,
  on the result of the first, leaves one.
\<close>

theorem stale_markers_second_run:
  "countStackmaps [staleF] = 2 \<and>
   countStackmaps (snd (snd staleRun1)) = 2 \<and>
   countStackmaps (snd (snd staleRun2)) = 1"
  by code_simp

subsection \<open>C9: markers without live values\<close>

text \<open>
  C9. When the option \<open>no-live-vals\<close> is set and a new pass object runs on a module, every
  call site of the result that is not an invoke is directly followed by a call of the
  marker \<^verbatim>\<open>llvm.experimental.pcn.stackmap\<close> whose operands are exactly two: the 64-bit
  site identifier, which is the number of instrumented call sites before it in its
  routine (so the identifiers of a routine are 0, 1, 2, ...), and the 32-bit constant 0.
\<close>

theorem no_live_vals_markers:
  assumes "NoLiveVals env"
    and "runOnModule env newPass M = (modified, ps', M')"
    and "f' \<in> set M'" and "k < length (instructions f')"
    and "isCallSite (instructions f' ! k)" and "\<not> isInvoke (instructions f' ! k)"
  shows "Suc k < length (instructions f') \<and>
         opcode (instructions f' ! Suc k) = CallInst (Some ''llvm.experimental.pcn.stackmap'') \<and>
         operands (instructions f' ! Suc k) =
           [ConstInt64 (of_nat (length (filter (\<lambda>i. isCallSite i \<and> \<not> isInvoke i)
                                               (take k (instructions f'))))),
            ConstInt32 0] \<and>
         length (operands (instructions f' ! Suc k)) = 2"
proof -
  obtain added M1 where a: "addSMDeclaration M = (added, M1)" by force
  obtain removed M2 where r: "removeOldStackmaps M1 = (removed, M2)" by force
  obtain ps3 M3 where i: "instrumentFunctions env newPass M2 = (ps3, M3)" by force
  from assms(2) a r i have "M' = M3" by (simp add: runOnModule_def)
  with assms(3) have f': "f' \<in> set M3" by simp
  have ins: "instrumentable (instructions f' ! k)"
    using assms(5,6) by (simp add: instrumentable_def)
  have eq: "instrumentable = (\<lambda>i. isCallSite i \<and> \<not> isInvoke i)"
    by (rule ext) (simp add: instrumentable_def)
  from instrumentFunctions_shape [OF i _ f' assms(4) ins] assms(1)
  show ?thesis by (auto simp: newPass_def emitted_def eq makeStackmap_def SMName_def)
qed

theorem no_live_vals_markers_witness:
  "twoCallsOut \<in> set (snd (snd (runOnModule (exampleEnv\<lparr>NoLiveVals := True\<rparr>) newPass [twoCalls]))) \<and>
   isCallSite (instructions twoCallsOut ! 2) \<and>
   opcode (instructions twoCallsOut ! Suc 2) = CallInst (Some ''llvm.experimental.pcn.stackmap'') \<and>
   operands (instructions twoCallsOut ! Suc 2) = [ConstInt64 1, ConstInt32 0]"
proof -
  let ?env = "exampleEnv\<lparr>NoLiveVals := True\<rparr>"
  let ?R = "runOnModule ?env newPass [twoCalls]"
  have 1: "NoLiveVals ?env" by simp
  have 2: "?R = (fst ?R, fst (snd ?R), snd (snd ?R))" by simp
  have 3: "twoCallsOut \<in> set (snd (snd ?R))" by code_simp
  have 4: "2 < length (instructions twoCallsOut)" by code_simp
  have 5: "isCallSite (instructions twoCallsOut ! 2)" by code_simp
  have 6: "\<not> isInvoke (instructions twoCallsOut ! 2)" by code_simp
  have 7: "length (filter (\<lambda>i. isCallSite i \<and> \<not> isInvoke i) (take 2 (instructions twoCallsOut))) = 1"
    by code_simp
  from no_live_vals_markers [OF 1 2 3 4 5 6]
  have "opcode (instructions twoCallsOut ! Suc 2) = CallInst (Some ''llvm.experimental.pcn.stackmap'') \<and>
        operands (instructions twoCallsOut ! Suc 2) = [ConstInt64 1, ConstInt32 0]"
    unfolding 7 by simp
  with 3 5 show ?thesis by blast
qed

subsection \<open>C10: the directly live values are kept\<close>

text \<open>
  C10. At every call site that is instrumented with live values, the marker call follows
  the call directly and its live values contain every value of the answer of the
  liveness analysis for the call, provided the names and slots tell the values offered
  to the sorted set apart (as they do in any routine).
\<close>

theorem live_values_all_emitted:
  assumes "\<not> NoLiveVals env"
    and "instrumentBlock env hI hA ps bb = (ps', bb')"
    and "k < length bb'" and "isCallSite (bb' ! k)" and "\<not> isInvoke (bb' ! k)"
    and "distinguishable env (set (candidates env hI hA (bb' ! k)))"
  shows "Suc k < length bb' \<and> isStackmap (bb' ! Suc k) \<and>
         set (getLiveValues env (ident (bb' ! k))) \<subseteq> set (drop 2 (operands (bb' ! Suc k)))"
proof -
  have ins: "instrumentable (bb' ! k)"
    using assms(4,5) by (simp add: instrumentable_def)
  from instrumentBlock_shape [OF assms(2,3) ins] assms(1)
  have 1: "Suc k < length bb'"
    and 2: "isStackmap (bb' ! Suc k)"
    and 3: "drop 2 (operands (bb' ! Suc k)) = sortedLive env hI hA (bb' ! k)"
    by (simp_all add: emitted_def makeStackmap_def isStackmap_def)
  have "set (getLiveValues env (ident (bb' ! k))) \<subseteq> set (candidates env hI hA (bb' ! k))"
    by (simp add: candidates_def Let_def)
  with set_sortedLive [OF assms(6)] 1 2 3 show ?thesis by simp
qed

theorem live_values_all_emitted_witness:
  "distinguishable exampleEnv (set (candidates exampleEnv exampleHI exampleHA (exampleOut ! 3))) \<and>
   isCallSite (exampleOut ! 3) \<and> isStackmap (exampleOut ! Suc 3) \<and>
   set (getLiveValues exampleEnv (ident (exampleOut ! 3)))
     \<subseteq> set (drop 2 (operands (exampleOut ! Suc 3)))"
proof -
  have 1: "\<not> NoLiveVals exampleEnv" by (simp add: exampleEnv_def)
  have 3: "instrumentBlock exampleEnv exampleHI exampleHA newPass (hd (blocks exampleF)) =
           (fst (instrumentBlock exampleEnv exampleHI exampleHA newPass (hd (blocks exampleF))),
            exampleOut)"
    by (simp add: exampleOut_def)
  have 4: "3 < length exampleOut" by code_simp
  have 5: "isCallSite (exampleOut ! 3)" by code_simp
  have 6: "\<not> isInvoke (exampleOut ! 3)" by code_simp
  have 7: "distinguishable exampleEnv (set (candidates exampleEnv exampleHI exampleHA (exampleOut ! 3)))"
    by code_simp
  from live_values_all_emitted [OF 1 3 4 5 6 7] 5 7 show ?thesis by blast
qed


section \<open>Properties of the loop path enumeration\<close>

subsection \<open>The steps of the analysis of a loop\<close>

text \<open>The steps of a whole loop analysis: those of the searches, and taking a start from
  the front of the list.\<close>

inductive searchStep :: "Context \<Rightarrow> bool \<Rightarrow> Analysis \<Rightarrow> Analysis \<Rightarrow> bool"
  for c :: Context and v :: bool where
  dfsStep: "okStep c v n0 st st' \<Longrightarrow> searchStep c v st st'"
| popStep: "NewPaths st = I # rest \<Longrightarrow> searchStep c v st (st\<lparr>NewPaths := rest\<rparr>)"

definition searched :: "Context \<Rightarrow> bool \<Rightarrow> Analysis \<Rightarrow> bool \<times> Analysis \<Rightarrow> bool" where
  "searched c v st r =
     (if fst r then (searchStep c v)\<^sup>*\<^sup>* st (snd r)
      else (\<exists>t. (searchStep c v)\<^sup>*\<^sup>* st t \<and> failStep c t (snd r)))"

lemma okSteps_searchSteps: "(okStep c v n0)\<^sup>*\<^sup>* s t \<Longrightarrow> (searchStep c v)\<^sup>*\<^sup>* s t"
  by (induction rule: rtranclp_induct) (auto intro: dfsStep rtranclp.rtrancl_into_rtrancl)

lemma traced_searched: "traced c v n0 st r \<Longrightarrow> searched c v st r"
  by (auto simp: traced_def searched_def dest: okSteps_searchSteps split: if_splits)

lemma searched_trans:
  "(searchStep c v)\<^sup>*\<^sup>* st s1 \<Longrightarrow> searched c v s1 r \<Longrightarrow> searched c v st r"
  by (auto simp: searched_def split: if_splits intro: rtranclp_trans)

lemma okStep_starts:
  assumes "okStep c True n0 s t" and "\<forall>x \<in> set (NewPaths s). instrOK c x"
  shows "\<forall>x \<in> set (NewPaths t). instrOK c x"
  using assms
proof (induction rule: okStep.induct)
  case (eqPointStep P e st d)
  then show ?case by (simp add: markEqPoint_def addPath_def)
next
  case (latchStep P BB st d)
  then show ?case by (simp add: markEqPoint_def markSpanning_def addPath_def)
next
  case (subLoopStep P BB Succ S Exit st d)
  then show ?case
    by (auto simp: push_def addPath_def pushIfNotPresent_def instrOK_def getTerminator_def)
next
  case (pushStep st x)
  then show ?case by (auto simp: push_def pushIfNotPresent_def)
next
  case (lookupStep st Succ)
  then show ?case using getSubLoopSuccessors_frame [of c Succ st] by simp
qed

lemma okSteps_starts:
  "(okStep c True n0)\<^sup>*\<^sup>* s t \<Longrightarrow> \<forall>x \<in> set (NewPaths s). instrOK c x \<Longrightarrow>
   \<forall>x \<in> set (NewPaths t). instrOK c x"
  by (induction rule: rtranclp_induct) (auto dest: okStep_starts)

lemma drain_searched:
  "(v \<longrightarrow> (\<forall>x \<in> set (NewPaths st). instrOK c x)) \<Longrightarrow> searched c v st (drain c st)"
proof (induction c st rule: drain.induct)
  case (1 c st)
  show ?case
  proof (cases "NewPaths st")
    case Nil
    then have "drain c st = (True, st)" by (subst drain.simps) simp
    then show ?thesis by (simp add: searched_def)
  next
    case (Cons I rest)
    let ?d = "\<lparr>DFSI_Start = I, DFSI_StartsAtHeader = False\<rparr>"
    let ?s0 = "st\<lparr>NewPaths := rest\<rparr>"
    obtain ok st1 where r: "loopDFS c ?d I [] ?s0 = (ok, st1)" by force
    have pop: "searchStep c v st ?s0" using Cons by (rule popStep)
    have t: "traced c v (length (CurPaths ?s0)) ?s0 (ok, st1)"
      using loopDFS_traced [of "[]" "length (CurPaths ?s0)" ?s0 v c I ?d] "1.prems" Cons r
      by simp
    show ?thesis
    proof (cases ok)
      case False
      with r Cons have "drain c st = (False, st1)" by (subst drain.simps) simp
      moreover have "searched c v st (False, st1)"
        using pop traced_searched [OF t] False
        by (intro searched_trans [of c v st ?s0]) auto
      ultimately show ?thesis by simp
    next
      case True
      with r Cons have eq: "drain c st = drain c st1" by (subst drain.simps) simp
      from t True have steps: "(okStep c v (length (CurPaths ?s0)))\<^sup>*\<^sup>* ?s0 st1"
        by (simp add: traced_def)
      have "v \<longrightarrow> (\<forall>x \<in> set (NewPaths st1). instrOK c x)"
      proof
        assume v
        with steps "1.prems" Cons show "\<forall>x \<in> set (NewPaths st1). instrOK c x"
          by (intro okSteps_starts [of c _ ?s0 st1]) auto
      qed
      then have "searched c v st1 (drain c st1)"
        using Cons r [symmetric] True by (intro "1.IH") simp_all
      moreover have "(searchStep c v)\<^sup>*\<^sup>* st st1"
        using pop okSteps_searchSteps [OF steps] by auto
      ultimately show ?thesis unfolding eq by (rule searched_trans [rotated])
    qed
  qed
qed

text \<open>The context and the initial state of the analysis of a loop.\<close>

definition loopContext :: "CFG \<Rightarrow> Loop list \<Rightarrow> nat \<Rightarrow> Loop \<Rightarrow> Context" where
  "loopContext g loops maxPaths L =
     \<lparr>cfg = g, LI = loops, MaxNumPaths = maxPaths, CurLoop = L,
      Latches = getLoopLatches g L, SubLoopBlocks = getSubBlocks L\<rparr>"

definition loopInit :: "Loop \<Rightarrow> Analysis \<Rightarrow> Analysis" where
  "loopInit L st =
     st\<lparr>CurPaths := [],
        HasSpPath := (HasSpPath st)(loopId L := Map.empty),
        HasEqPointPath := (HasEqPointPath st)(loopId L := Map.empty),
        NewPaths := []\<rparr>"

lemma analyzeLoop_searched:
  assumes "analyzeLoop g loops maxPaths L st = (ok, st')"
  shows "\<exists>s. st' = s\<lparr>Paths := (Paths s)(loopId L \<mapsto> CurPaths s)\<rparr> \<and>
             searched (loopContext g loops maxPaths L) v (loopInit L st) (ok, s)"
proof -
  let ?c = "loopContext g loops maxPaths L"
  let ?d = "\<lparr>DFSI_Start = front (getHeader L), DFSI_StartsAtHeader = True\<rparr>"
  let ?s0 = "loopInit L st"
  obtain ok1 st1 where r: "loopDFS ?c ?d (front (getHeader L)) [] ?s0 = (ok1, st1)" by force
  have t: "traced ?c v 0 ?s0 (ok1, st1)"
    using loopDFS_traced [of "[]" 0 ?s0 v ?c "front (getHeader L)" ?d] r instrOK_front
    by simp
  let ?r = "if ok1 then drain ?c st1 else (False, st1)"
  have res: "(ok, st') = (fst ?r, (snd ?r)\<lparr>Paths := (Paths (snd ?r))(loopId L \<mapsto> CurPaths (snd ?r))\<rparr>)"
    using assms r unfolding analyzeLoop_def Let_def loopContext_def [symmetric] loopInit_def [symmetric]
    by (auto split: if_splits)
  have "searched ?c v ?s0 ?r"
  proof (cases ok1)
    case False
    with traced_searched [OF t] show ?thesis by simp
  next
    case True
    with t have steps: "(okStep ?c v 0)\<^sup>*\<^sup>* ?s0 st1" by (simp add: traced_def)
    have "v \<longrightarrow> (\<forall>x \<in> set (NewPaths st1). instrOK ?c x)"
    proof
      assume v
      with steps show "\<forall>x \<in> set (NewPaths st1). instrOK ?c x"
        by (intro okSteps_starts [of ?c 0 ?s0 st1]) (auto simp: loopInit_def)
    qed
    then have "searched ?c v st1 (drain ?c st1)" by (rule drain_searched)
    with okSteps_searchSteps [OF steps] True show ?thesis
      by (auto intro: searched_trans)
  qed
  with res show ?thesis by (intro exI [of _ "snd ?r"]) auto
qed

lemma searchSteps_invariant:
  assumes "(searchStep c v)\<^sup>*\<^sup>* s t" and "Inv s"
    and "\<And>s t n0. Inv s \<Longrightarrow> okStep c v n0 s t \<Longrightarrow> Inv t"
    and "\<And>s I rest. Inv s \<Longrightarrow> NewPaths s = I # rest \<Longrightarrow> Inv (s\<lparr>NewPaths := rest\<rparr>)"
  shows "Inv t"
  using assms(1,2)
proof (induction rule: rtranclp_induct)
  case base
  then show ?case .
next
  case (step y z)
  from step(2) step(3) [OF step(4)] show ?case
    by (cases rule: searchStep.cases) (auto intro: assms(3,4))
qed





















subsection \<open>Invariants of the recorded paths and summaries\<close>

lemma foldl_insertNode: "distinct (acc @ P) \<Longrightarrow> foldl insertNode acc P = acc @ P"
proof (induction P arbitrary: acc)
  case Nil
  show ?case by simp
next
  case (Cons n P)
  then have "insertNode acc n = acc @ [n]" by (simp add: insertNode_def)
  moreover from Cons.prems have "distinct ((acc @ [n]) @ P)" by simp
  ultimately show ?case using Cons.IH [of "acc @ [n]"] by simp
qed

lemma Nodes_mkLoopPath:
  "distinct (map fst P) \<Longrightarrow> Nodes (mkLoopPath P s e a b) = P"
  using foldl_insertNode [of "[]" P] by (simp add: mkLoopPath_def distinct_map)

lemma markNode_true:
  "(foldl (markNode c) m P) l b = Some True \<longleftrightarrow>
   m l b = Some True \<or> (l = loopId (CurLoop c) \<and> b \<in> fst ` set P \<and> b \<notin> set (SubLoopBlocks c))"
proof (induction P arbitrary: m)
  case Nil
  show ?case by simp
next
  case (Cons n P)
  have "(markNode c m n) l b = Some True \<longleftrightarrow>
        m l b = Some True \<or> (l = loopId (CurLoop c) \<and> b = fst n \<and> b \<notin> set (SubLoopBlocks c))"
    by (auto simp: markNode_def)
  with Cons.IH [of "markNode c m n"] show ?case by auto
qed

lemma exitStep_true:
  "(HasEqPointPath (snd (snd (foldl (exitStep g S) acc exits))) l b = Some True
      \<longleftrightarrow> HasEqPointPath (snd (snd acc)) l b = Some True) \<and>
   (HasSpPath (snd (snd (foldl (exitStep g S) acc exits))) l b = Some True
      \<longleftrightarrow> HasSpPath (snd (snd acc)) l b = Some True)"
proof (induction exits arbitrary: acc)
  case Nil
  show ?case by simp
next
  case (Cons e es)
  obtain eq sp st where acc: "acc = (eq, sp, st)" by (cases acc) auto
  obtain v1 m1 where l1: "lookupOrInsert (HasSpPath st) (loopId S) e = (v1, m1)" by force
  obtain v2 m2 where l2: "lookupOrInsert (HasEqPointPath st) (loopId S) e = (v2, m2)" by force
  have "snd (snd (exitStep g S acc e)) = st\<lparr>HasSpPath := m1, HasEqPointPath := m2\<rparr>"
    by (simp add: exitStep_def acc l1 l2)
  with lookupOrInsert_result [OF l1] lookupOrInsert_result [OF l2] acc
  have "(HasEqPointPath (snd (snd (exitStep g S acc e))) l b = Some True
          \<longleftrightarrow> HasEqPointPath (snd (snd acc)) l b = Some True) \<and>
        (HasSpPath (snd (snd (exitStep g S acc e))) l b = Some True
          \<longleftrightarrow> HasSpPath (snd (snd acc)) l b = Some True)"
    by simp
  with Cons.IH [of "exitStep g S acc e"] show ?case by simp
qed

lemma getSubLoopSuccessors_true:
  "(HasEqPointPath (snd (snd (getSubLoopSuccessors c Succ st))) l b = Some True
      \<longleftrightarrow> HasEqPointPath st l b = Some True) \<and>
   (HasSpPath (snd (snd (getSubLoopSuccessors c Succ st))) l b = Some True
      \<longleftrightarrow> HasSpPath st l b = Some True)"
proof (cases "getLoopFor (LI c) Succ")
  case None
  then show ?thesis by (simp add: getSubLoopSuccessors_def)
next
  case (Some S)
  with exitStep_true [of "cfg c" S "([], [], st)" "getExitingBlocks (cfg c) S" l b]
  show ?thesis by (simp add: getSubLoopSuccessors_def)
qed

lemma okStep_trueKept:
  "okStep c v n0 s t \<Longrightarrow> trueKept (HasEqPointPath s) (HasEqPointPath t)"
proof (induction rule: okStep.induct)
  case (eqPointStep P e st d)
  show ?case by (simp add: trueKept_def markEqPoint_def addPath_def markNode_true)
next
  case (latchStep P BB st d)
  show ?case by (simp add: trueKept_def markEqPoint_def markSpanning_def addPath_def markNode_true)
next
  case (subLoopStep P BB Succ S Exit st d)
  show ?case by (simp add: trueKept_def push_def addPath_def)
next
  case (pushStep st x)
  show ?case by (simp add: trueKept_def push_def)
next
  case (lookupStep st Succ)
  show ?case using getSubLoopSuccessors_true [of c Succ st] by (simp add: trueKept_def)
qed

text \<open>What holds of every recorded path.\<close>

definition stopsBeforeSubLoop :: "Context \<Rightarrow> Analysis \<Rightarrow> nat \<Rightarrow> bool" where
  "stopsBeforeSubLoop c st BB =
     (\<exists>Succ \<in> set (successors (cfg c) BB).
        contains (CurLoop c) Succ \<and> Succ \<in> set (SubLoopBlocks c) \<and>
        (case getLoopFor (LI c) Succ of
           None \<Rightarrow> False
         | Some S \<Rightarrow> \<exists>Exit \<in> set (getExitingBlocks (cfg c) S).
                       HasEqPointPath st (loopId S) Exit = Some True))"

definition pathOK :: "Context \<Rightarrow> Analysis \<Rightarrow> LoopPath \<Rightarrow> bool" where
  "pathOK c st p =
     (Nodes p \<noteq> [] \<and> distinct (map fst (Nodes p)) \<and> fst (End p) = fst (last (Nodes p)) \<and>
      ((EndsAtBackedge p \<and> fst (last (Nodes p)) \<in> set (Latches c)) \<or>
       (\<not> EndsAtBackedge p \<and> isEquivalencePoint (cfg c) (End p)) \<or>
       (\<not> EndsAtBackedge p \<and> End p = getTerminator (cfg c) (fst (last (Nodes p))) \<and>
        stopsBeforeSubLoop c st (fst (last (Nodes p))))))"

lemma stopsBeforeSubLoop_mono:
  "trueKept (HasEqPointPath s) (HasEqPointPath t) \<Longrightarrow> stopsBeforeSubLoop c s BB \<Longrightarrow>
   stopsBeforeSubLoop c t BB"
  unfolding stopsBeforeSubLoop_def trueKept_def
  by (fastforce split: option.splits)

lemma pathOK_mono:
  "trueKept (HasEqPointPath s) (HasEqPointPath t) \<Longrightarrow> pathOK c s p \<Longrightarrow> pathOK c t p"
  unfolding pathOK_def using stopsBeforeSubLoop_mono [of s t c] by blast

lemma pathOK_cong:
  "HasEqPointPath s = HasEqPointPath t \<Longrightarrow> pathOK c s p = pathOK c t p"
  using pathOK_mono [of s t c p] pathOK_mono [of t s c p] by (auto simp: trueKept_def)

lemma pathOK_new:
  assumes "P \<noteq> []" and "distinct (map fst P)" and "fst e = fst (last P)"
    and "(b \<and> fst (last P) \<in> set (Latches c)) \<or>
         (\<not> b \<and> isEquivalencePoint (cfg c) e) \<or>
         (\<not> b \<and> e = getTerminator (cfg c) (fst (last P)) \<and> stopsBeforeSubLoop c st (fst (last P)))"
  shows "pathOK c st (mkLoopPath P s e a b)"
  using assms by (simp add: pathOK_def Nodes_mkLoopPath) (simp add: mkLoopPath_def)

lemma okStep_pathOK:
  assumes "okStep c v n0 s t" and "\<forall>p \<in> set (CurPaths s). pathOK c s p"
  shows "\<forall>p \<in> set (CurPaths t). pathOK c t p"
proof -
  have old: "\<forall>p \<in> set (CurPaths s). pathOK c t p"
    using assms(2) pathOK_mono [OF okStep_trueKept [OF assms(1)]] by blast
  from assms(1) old show ?thesis
  proof (induction rule: okStep.induct)
    case (eqPointStep P e st d)
    let ?t = "markEqPoint c P (addPath d P e False st)"
    have "pathOK c ?t (mkLoopPath P (DFSI_Start d) e (DFSI_StartsAtHeader d) False)"
      using eqPointStep(1-5) by (intro pathOK_new) simp_all
    with eqPointStep(7) show ?case by (auto simp: markEqPoint_def addPath_def)
  next
    case (latchStep P BB st d)
    let ?t = "if DFSI_StartsAtHeader d
              then markSpanning c P (addPath d P (getTerminator (cfg c) BB) True st)
              else markEqPoint c P (addPath d P (getTerminator (cfg c) BB) True st)"
    have "pathOK c ?t (mkLoopPath P (DFSI_Start d) (getTerminator (cfg c) BB)
                           (DFSI_StartsAtHeader d) True)"
      using latchStep(1-4) by (intro pathOK_new) (simp_all add: getTerminator_def)
    with latchStep(6) show ?case
      by (auto simp: markEqPoint_def markSpanning_def addPath_def split: if_splits)
  next
    case (subLoopStep P BB Succ S Exit st d)
    let ?t = "push (getTerminator (cfg c) Exit) (addPath d P (getTerminator (cfg c) BB) False st)"
    have "stopsBeforeSubLoop c ?t BB"
      unfolding stopsBeforeSubLoop_def
      using subLoopStep(5-10) by (intro bexI [of _ Succ]) (auto simp: push_def addPath_def)
    then have "pathOK c ?t (mkLoopPath P (DFSI_Start d) (getTerminator (cfg c) BB)
                           (DFSI_StartsAtHeader d) False)"
      using subLoopStep(1-3) by (intro pathOK_new) (simp_all add: getTerminator_def)
    with subLoopStep(12) show ?case by (auto simp: push_def addPath_def)
  next
    case (pushStep st x)
    then show ?case by (simp add: push_def)
  next
    case (lookupStep st Succ)
    then show ?case using getSubLoopSuccessors_frame [of c Succ st] by simp
  qed
qed

lemma analyzeLoop_pathOK:
  assumes "analyzeLoop g loops maxPaths L st = (True, st')" and "Paths st' (loopId L) = Some ps"
    and "p \<in> set ps"
  shows "pathOK (loopContext g loops maxPaths L) st' p"
proof -
  let ?c = "loopContext g loops maxPaths L"
  from analyzeLoop_searched [OF assms(1), of False] obtain s where
    st': "st' = s\<lparr>Paths := (Paths s)(loopId L \<mapsto> CurPaths s)\<rparr>"
    and steps: "(searchStep ?c False)\<^sup>*\<^sup>* (loopInit L st) s"
    by (auto simp: searched_def)
  have "\<forall>p \<in> set (CurPaths s). pathOK ?c s p"
    using steps
  proof (rule searchSteps_invariant)
    show "\<forall>p \<in> set (CurPaths (loopInit L st)). pathOK ?c (loopInit L st) p"
      by (simp add: loopInit_def)
  next
    fix s t n0
    assume "\<forall>p \<in> set (CurPaths s). pathOK ?c s p" "okStep ?c False n0 s t"
    then show "\<forall>p \<in> set (CurPaths t). pathOK ?c t p" using okStep_pathOK by blast
  next
    fix s :: Analysis and I rest
    assume "\<forall>p \<in> set (CurPaths s). pathOK ?c s p"
    then show "\<forall>p \<in> set (CurPaths (s\<lparr>NewPaths := rest\<rparr>)). pathOK ?c (s\<lparr>NewPaths := rest\<rparr>) p"
      using pathOK_cong [of "s\<lparr>NewPaths := rest\<rparr>" s ?c] by simp
  qed
  moreover from assms(2,3) st' have "p \<in> set (CurPaths s)" by simp
  ultimately have "pathOK ?c s p" by blast
  then show ?thesis
    unfolding st' using pathOK_cong [of "s\<lparr>Paths := (Paths s)(loopId L \<mapsto> CurPaths s)\<rparr>" s ?c p]
    by simp
qed

text \<open>The two summaries of the current loop agree with the recorded paths.\<close>

definition summaryOK :: "Context \<Rightarrow> Analysis \<Rightarrow> bool" where
  "summaryOK c st =
     (\<forall>BB.
        (HasSpPath st (loopId (CurLoop c)) BB = Some True \<longleftrightarrow>
           BB \<notin> set (SubLoopBlocks c) \<and>
           (\<exists>p \<in> set (CurPaths st). StartsAtHeader p \<and> EndsAtBackedge p \<and> BB \<in> fst ` set (Nodes p))) \<and>
        (HasEqPointPath st (loopId (CurLoop c)) BB = Some True \<longleftrightarrow>
           BB \<notin> set (SubLoopBlocks c) \<and>
           (\<exists>p \<in> set (CurPaths st). BB \<in> fst ` set (Nodes p) \<and>
              (\<not> EndsAtBackedge p \<and> isEquivalencePoint (cfg c) (End p) \<and>
                 fst (End p) \<notin> set (SubLoopBlocks c) \<or>
               EndsAtBackedge p \<and> \<not> StartsAtHeader p))))"

lemma okStep_summaryOK:
  assumes "okStep c True n0 s t" and "summaryOK c s"
  shows "summaryOK c t"
  using assms
proof (induction rule: okStep.induct)
  case (eqPointStep P e st d)
  let ?p = "mkLoopPath P (DFSI_Start d) e (DFSI_StartsAtHeader d) False"
  have n: "Nodes ?p = P" using eqPointStep(2) by (rule Nodes_mkLoopPath)
  have f: "End ?p = e" "\<not> EndsAtBackedge ?p" by (simp_all add: mkLoopPath_def)
  show ?case
    unfolding summaryOK_def
  proof (intro allI conjI)
    fix BB
    show "HasSpPath (markEqPoint c P (addPath d P e False st)) (loopId (CurLoop c)) BB = Some True \<longleftrightarrow>
           BB \<notin> set (SubLoopBlocks c) \<and>
           (\<exists>p \<in> set (CurPaths (markEqPoint c P (addPath d P e False st))).
              StartsAtHeader p \<and> EndsAtBackedge p \<and> BB \<in> fst ` set (Nodes p))"
      using eqPointStep(7) f
      by (auto simp: summaryOK_def markEqPoint_def addPath_def)
    show "HasEqPointPath (markEqPoint c P (addPath d P e False st)) (loopId (CurLoop c)) BB = Some True \<longleftrightarrow>
           BB \<notin> set (SubLoopBlocks c) \<and>
           (\<exists>p \<in> set (CurPaths (markEqPoint c P (addPath d P e False st))).
              BB \<in> fst ` set (Nodes p) \<and>
              (\<not> EndsAtBackedge p \<and> isEquivalencePoint (cfg c) (End p) \<and>
                 fst (End p) \<notin> set (SubLoopBlocks c) \<or>
               EndsAtBackedge p \<and> \<not> StartsAtHeader p))"
      using eqPointStep(4,5,7) n f
      by (auto simp: summaryOK_def markEqPoint_def addPath_def markNode_true)
  qed
next
  case (latchStep P BB' st d)
  let ?e = "getTerminator (cfg c) BB'"
  let ?p = "mkLoopPath P (DFSI_Start d) ?e (DFSI_StartsAtHeader d) True"
  have n: "Nodes ?p = P" using latchStep(2) by (rule Nodes_mkLoopPath)
  have f: "EndsAtBackedge ?p" "StartsAtHeader ?p = DFSI_StartsAtHeader d"
    by (simp_all add: mkLoopPath_def)
  show ?case
  proof (cases "DFSI_StartsAtHeader d")
    case True
    with latchStep(6) n f show ?thesis
      unfolding summaryOK_def
      by (auto simp: markSpanning_def addPath_def markNode_true)
  next
    case False
    with latchStep(6) n f show ?thesis
      unfolding summaryOK_def
      by (auto simp: markEqPoint_def addPath_def markNode_true)
  qed
next
  case (subLoopStep P BB' Succ S Exit st d)
  let ?e = "getTerminator (cfg c) BB'"
  let ?p = "mkLoopPath P (DFSI_Start d) ?e (DFSI_StartsAtHeader d) False"
  have f: "\<not> EndsAtBackedge ?p" "End ?p = ?e" by (simp_all add: mkLoopPath_def)
  have "\<not> (isEquivalencePoint (cfg c) ?e \<and> fst ?e \<notin> set (SubLoopBlocks c))"
    using subLoopStep(4) by (auto simp: getTerminator_def)
  with subLoopStep(12) f show ?case
    unfolding summaryOK_def
    by (auto simp: push_def addPath_def)
next
  case (pushStep st x)
  then show ?case by (simp add: summaryOK_def push_def)
next
  case (lookupStep st Succ)
  then show ?case
    using getSubLoopSuccessors_true [of c Succ st] getSubLoopSuccessors_frame [of c Succ st]
    by (simp add: summaryOK_def)
qed


lemma okStep_NewPaths: "okStep c v n0 s t \<Longrightarrow> set (NewPaths s) \<subseteq> set (NewPaths t)"
proof (induction rule: okStep.induct)
  case (lookupStep st Succ)
  show ?case using getSubLoopSuccessors_frame [of c Succ st] by simp
qed (auto simp: markEqPoint_def markSpanning_def addPath_def push_def pushIfNotPresent_def)

lemma okSteps_NewPaths: "(okStep c v n0)\<^sup>*\<^sup>* s t \<Longrightarrow> set (NewPaths s) \<subseteq> set (NewPaths t)"
  by (induction rule: rtranclp_induct) (auto dest: okStep_NewPaths)

subsection \<open>The new starts after an equivalence point at the end of a block\<close>

text \<open>The terminators of the exiting blocks of the sub-loop of a successor that have the
  entry true in a summary \<open>m\<close>, in the order of the exiting blocks.\<close>

definition exitsWith :: "Context \<Rightarrow> (nat \<Rightarrow> nat \<rightharpoonup> bool) \<Rightarrow> nat \<Rightarrow> Instr list" where
  "exitsWith c m Succ =
     (case getLoopFor (LI c) Succ of
        None \<Rightarrow> []
      | Some S \<Rightarrow> map (getTerminator (cfg c))
                     (filter (\<lambda>Exit. m (loopId S) Exit = Some True) (getExitingBlocks (cfg c) S)))"

definition sameTrue :: "Analysis \<Rightarrow> Analysis \<Rightarrow> bool" where
  "sameTrue s t =
     (\<forall>L BB. (HasSpPath s L BB = Some True \<longleftrightarrow> HasSpPath t L BB = Some True) \<and>
             (HasEqPointPath s L BB = Some True \<longleftrightarrow> HasEqPointPath t L BB = Some True))"

lemma sameTrue_refl: "sameTrue s s"
  by (simp add: sameTrue_def)

lemma sameTrue_trans: "sameTrue s t \<Longrightarrow> sameTrue t u \<Longrightarrow> sameTrue s u"
  by (simp add: sameTrue_def)

lemma sameTrue_exitsWith:
  "sameTrue s t \<Longrightarrow>
   exitsWith c (HasEqPointPath s) Succ = exitsWith c (HasEqPointPath t) Succ \<and>
   exitsWith c (HasSpPath s) Succ = exitsWith c (HasSpPath t) Succ"
  by (simp add: sameTrue_def exitsWith_def split: option.splits)

lemma sameTrue_push: "sameTrue (push x s) s"
  by (simp add: sameTrue_def push_def)

lemma exitStep_vectors:
  "fst (foldl (exitStep g S) (E0, Sp0, st) exits) =
     E0 @ map (getTerminator g) (filter (\<lambda>x. HasEqPointPath st (loopId S) x = Some True) exits) \<and>
   fst (snd (foldl (exitStep g S) (E0, Sp0, st) exits)) =
     Sp0 @ map (getTerminator g) (filter (\<lambda>x. HasSpPath st (loopId S) x = Some True) exits)"
proof (induction exits arbitrary: E0 Sp0 st)
  case Nil
  show ?case by simp
next
  case (Cons e es)
  obtain v1 m1 where l1: "lookupOrInsert (HasSpPath st) (loopId S) e = (v1, m1)" by force
  obtain v2 m2 where l2: "lookupOrInsert (HasEqPointPath st) (loopId S) e = (v2, m2)" by force
  note r1 = lookupOrInsert_result [OF l1]
  note r2 = lookupOrInsert_result [OF l2]
  let ?st = "st\<lparr>HasSpPath := m1, HasEqPointPath := m2\<rparr>"
  have step: "exitStep g S (E0, Sp0, st) e =
      (if v2 then E0 @ [getTerminator g e] else E0, if v1 then Sp0 @ [getTerminator g e] else Sp0, ?st)"
    by (simp add: exitStep_def l1 l2)
  have f2: "filter (\<lambda>x. HasEqPointPath ?st (loopId S) x = Some True) es =
            filter (\<lambda>x. HasEqPointPath st (loopId S) x = Some True) es"
    using r2 by simp
  have f1: "filter (\<lambda>x. HasSpPath ?st (loopId S) x = Some True) es =
            filter (\<lambda>x. HasSpPath st (loopId S) x = Some True) es"
    using r1 by simp
  show ?case
    using Cons.IH [of "if v2 then E0 @ [getTerminator g e] else E0"
                      "if v1 then Sp0 @ [getTerminator g e] else Sp0" ?st] r1 r2
    unfolding foldl_Cons step f1 f2 by auto
qed

lemma getSubLoopSuccessors_vectors:
  "fst (getSubLoopSuccessors c Succ s) = exitsWith c (HasEqPointPath s) Succ \<and>
   fst (snd (getSubLoopSuccessors c Succ s)) = exitsWith c (HasSpPath s) Succ"
proof (cases "getLoopFor (LI c) Succ")
  case None
  then show ?thesis by (simp add: getSubLoopSuccessors_def exitsWith_def)
next
  case (Some S)
  with exitStep_vectors [of "cfg c" S "[]" "[]" s "getExitingBlocks (cfg c) S"]
  show ?thesis by (simp add: getSubLoopSuccessors_def exitsWith_def)
qed

lemma getSubLoopSuccessors_sameTrue: "sameTrue (snd (snd (getSubLoopSuccessors c Succ s))) s"
  using getSubLoopSuccessors_true [of c Succ s] by (simp add: sameTrue_def)

lemma foldl_push:
  "foldl (\<lambda>s x. push x s) s xs =
   s\<lparr>NewPaths := foldl (\<lambda>List x. pushIfNotPresent x List) (NewPaths s) xs\<rparr>"
  by (induction xs arbitrary: s) (simp_all add: push_def)

lemma set_foldl_pushIfNotPresent:
  "set (foldl (\<lambda>List x. pushIfNotPresent x List) List xs) = set List \<union> set xs"
  by (induction xs arbitrary: List) (auto simp: pushIfNotPresent_def)

lemma forEach_filter:
  "(\<And>x s. x \<in> set xs \<Longrightarrow> \<not> Q x \<Longrightarrow> body x s = (True, s)) \<Longrightarrow>
   forEach body xs st = forEach body (filter Q xs) st"
proof (induction xs arbitrary: st)
  case Nil
  show ?case by simp
next
  case (Cons x xs)
  show ?case
  proof (cases "Q x")
    case True
    with Cons show ?thesis by (auto split: prod.splits bool.splits)
  next
    case False
    with Cons.prems [of x st] have "body x st = (True, st)" by simp
    with False Cons show ?thesis by simp
  qed
qed

lemma okSteps_trueKept:
  "(okStep c v n0)\<^sup>*\<^sup>* s t \<Longrightarrow> trueKept (HasEqPointPath s) (HasEqPointPath t)"
  by (induction rule: rtranclp_induct)
     (auto intro: trueKept_refl dest: okStep_trueKept elim: trueKept_trans)

text \<open>The loop over the successors after an equivalence point at the end of a block.\<close>

lemma afterEqPoint_includes:
  assumes body: "\<And>Succ s. body Succ s =
            (if Succ \<notin> set (SubLoopBlocks c) then (True, push (front Succ) s)
             else enterSubLoopAfterEqPoint c cont Succ s)"
    and cont: "\<And>SLE t. n0 \<le> length (CurPaths t) \<Longrightarrow> traced c False n0 t (cont SLE t)"
    and run: "forEach body xs s = (True, s')"
    and len: "n0 < length (CurPaths s)"
    and kept: "trueKept m0 (HasEqPointPath s)"
  shows "set (NewPaths s) \<subseteq> set (NewPaths s') \<and>
         (\<forall>Succ \<in> set xs.
            (Succ \<notin> set (SubLoopBlocks c) \<longrightarrow> front Succ \<in> set (NewPaths s')) \<and>
            (Succ \<in> set (SubLoopBlocks c) \<longrightarrow> set (exitsWith c m0 Succ) \<subseteq> set (NewPaths s')))"
  using run len kept
proof (induction xs arbitrary: s)
  case Nil
  then show ?case by simp
next
  case (Cons x xs)
  obtain ok s1 where r: "body x s = (ok, s1)" by force
  with Cons.prems(1) have ok: ok and rest: "forEach body xs s1 = (True, s')"
    by (auto split: bool.splits)
  have tr: "traced c False n0 s (body x s)"
  proof (cases "x \<in> set (SubLoopBlocks c)")
    case False
    have "okStep c False n0 s (push (front x) s)" using Cons.prems(2) by (intro pushStep) simp_all
    with False show ?thesis by (simp add: body traced_ok)
  next
    case True
    have "traced c False n0 s (enterSubLoopAfterEqPoint c cont x s)"
      using Cons.prems(2) cont by (intro enterSubLoopAfterEqPoint_traced) simp_all
    with True show ?thesis by (simp add: body)
  qed
  with r ok have steps: "(okStep c False n0)\<^sup>*\<^sup>* s s1" by (simp add: traced_def)
  have len1: "n0 < length (CurPaths s1)" using okSteps_length [OF steps] Cons.prems(2) by simp
  have kept1: "trueKept m0 (HasEqPointPath s1)"
    using Cons.prems(3) okSteps_trueKept [OF steps] by (rule trueKept_trans)
  note IH = Cons.IH [OF rest len1 kept1]
  have sub1: "set (NewPaths s) \<subseteq> set (NewPaths s1)" using steps by (rule okSteps_NewPaths)
  have here1: "front x \<in> set (NewPaths s1)" if "x \<notin> set (SubLoopBlocks c)"
    using that r by (auto simp: body push_def pushIfNotPresent_def)
  have here2: "set (exitsWith c m0 x) \<subseteq> set (NewPaths s1)" if x: "x \<in> set (SubLoopBlocks c)"
  proof -
    obtain E Sp t1 where g: "getSubLoopSuccessors c x s = (E, Sp, t1)"
      by (cases "getSubLoopSuccessors c x s") auto
    let ?s2 = "foldl (\<lambda>s SLE. push SLE s) t1 E"
    from r x ok have f: "forEach cont Sp ?s2 = (True, s1)"
      by (simp add: body enterSubLoopAfterEqPoint_def g)
    have E: "E = exitsWith c (HasEqPointPath s) x"
      using getSubLoopSuccessors_vectors [of c x s] g by simp
    have "set (exitsWith c m0 x) \<subseteq> set E"
      unfolding E using Cons.prems(3)
      by (auto simp: exitsWith_def trueKept_def split: option.splits)
    also have "set E \<subseteq> set (NewPaths ?s2)"
      by (simp add: foldl_push set_foldl_pushIfNotPresent)
    also have "set (NewPaths ?s2) \<subseteq> set (NewPaths s1)"
    proof -
      have "n0 \<le> length (CurPaths ?s2)"
        using Cons.prems(2) getSubLoopSuccessors_frame [of c x s] g by (simp add: CurPaths_pushes)
      then have "traced c False n0 ?s2 (forEach cont Sp ?s2)"
        using cont by (intro forEach_traced [where k = n0]) auto
      with f have "(okStep c False n0)\<^sup>*\<^sup>* ?s2 s1" by (simp add: traced_def)
      then show ?thesis by (rule okSteps_NewPaths)
    qed
    finally show ?thesis .
  qed
  from IH sub1 here1 here2 show ?case by auto
qed

lemma afterEqPoint_exact:
  assumes body: "\<And>Succ s. body Succ s =
            (if Succ \<notin> set (SubLoopBlocks c) then (True, push (front Succ) s)
             else enterSubLoopAfterEqPoint c cont Succ s)"
    and nospan: "\<forall>Succ \<in> set xs. Succ \<in> set (SubLoopBlocks c) \<longrightarrow> exitsWith c (HasSpPath X) Succ = []"
    and same: "sameTrue s X"
  shows "\<exists>s'. forEach body xs s = (True, s') \<and> sameTrue s' X \<and>
           NewPaths s' =
             foldl (\<lambda>List Succ.
                      if Succ \<notin> set (SubLoopBlocks c) then pushIfNotPresent (front Succ) List
                      else foldl (\<lambda>List SLE. pushIfNotPresent SLE List) List
                             (exitsWith c (HasEqPointPath X) Succ))
                   (NewPaths s) xs"
  using nospan same
proof (induction xs arbitrary: s)
  case Nil
  then show ?case by simp
next
  case (Cons x xs)
  let ?f = "\<lambda>List Succ.
              if Succ \<notin> set (SubLoopBlocks c) then pushIfNotPresent (front Succ) List
              else foldl (\<lambda>List SLE. pushIfNotPresent SLE List) List
                     (exitsWith c (HasEqPointPath X) Succ)"
  have "\<exists>s1. body x s = (True, s1) \<and> sameTrue s1 X \<and> NewPaths s1 = ?f (NewPaths s) x"
  proof (cases "x \<in> set (SubLoopBlocks c)")
    case False
    have "sameTrue (push (front x) s) X" using sameTrue_push Cons.prems(2) by (rule sameTrue_trans)
    with False show ?thesis by (simp add: body push_def)
  next
    case True
    obtain E Sp t1 where g: "getSubLoopSuccessors c x s = (E, Sp, t1)"
      by (cases "getSubLoopSuccessors c x s") auto
    have t1: "sameTrue t1 X"
      using getSubLoopSuccessors_sameTrue [of c x s] g Cons.prems(2) by (auto intro: sameTrue_trans)
    have E: "E = exitsWith c (HasEqPointPath X) x" and Sp: "Sp = exitsWith c (HasSpPath X) x"
      using getSubLoopSuccessors_vectors [of c x s] g sameTrue_exitsWith [OF Cons.prems(2), of c x]
      by simp_all
    from Sp True Cons.prems(1) have "Sp = []" by simp
    then have b: "body x s = (True, foldl (\<lambda>s SLE. push SLE s) t1 E)"
      using True by (simp add: body enterSubLoopAfterEqPoint_def g)
    have N: "NewPaths t1 = NewPaths s" using getSubLoopSuccessors_frame [of c x s] g by simp
    have "sameTrue (foldl (\<lambda>s SLE. push SLE s) t1 E) X"
      using t1 by (simp add: foldl_push sameTrue_def)
    with b True N E show ?thesis by (simp add: foldl_push)
  qed
  then obtain s1 where s1: "body x s = (True, s1)" "sameTrue s1 X" "NewPaths s1 = ?f (NewPaths s) x"
    by blast
  from Cons.prems(1) have "\<forall>Succ \<in> set xs. Succ \<in> set (SubLoopBlocks c) \<longrightarrow> exitsWith c (HasSpPath X) Succ = []"
    by simp
  from Cons.IH [OF this s1(2)] obtain s' where
    "forEach body xs s1 = (True, s')" "sameTrue s' X" "NewPaths s' = foldl ?f (NewPaths s1) xs"
    by blast
  with s1 show ?case by simp
qed

section \<open>Claims about the loop path enumeration\<close>

subsection \<open>Example loops\<close>

text \<open>The state of a new pass object.\<close>

definition emptyAnalysis :: Analysis where
  "emptyAnalysis =
     \<lparr>Paths = Map.empty, HasSpPath = (\<lambda>L. Map.empty), HasEqPointPath = (\<lambda>L. Map.empty),
      TooManyPaths = False, DetectedCycle = False, CurPaths = [], NewPaths = []\<rparr>"



text \<open>
  A nest of two loops: the outer loop has the header 0, the block 1 and the latch 2; block
  1 is a loop of its own (it branches to itself and to block 2) and starts with an
  equivalence point. The nest is analysed innermost first.
\<close>

definition nestCFG :: CFG where
  "nestCFG =
     \<lparr>eqPoints = (\<lambda>BB. if BB = 1 then [True, False] else [False]),
      successors = (\<lambda>BB. if BB = 0 then [1] else if BB = 1 then [1, 2] else if BB = 2 then [0, 3]
                          else [])\<rparr>"

definition innerLoop :: Loop where
  "innerLoop = Loop 2 1 [1] []"

definition outerLoop :: Loop where
  "outerLoop = Loop 1 0 [0, 1, 2] [innerLoop]"

definition nestResult :: Analysis where
  "nestResult = runOnFunction nestCFG [outerLoop] 100 rev emptyAnalysis"

definition innerDone :: Analysis where
  "innerDone = snd (analyzeLoop nestCFG [outerLoop] 100 innerLoop emptyAnalysis)"

definition outerDone :: Analysis where
  "outerDone = snd (analyzeLoop nestCFG [outerLoop] 100 outerLoop innerDone)"

text \<open>
  A loop with the header 0 and the latch 1. In \<open>pointCFG\<close> the header starts with an
  equivalence point that is not its terminator; in \<open>endCFG\<close> the only instruction of the
  header, its terminator, is an equivalence point.
\<close>

definition pointCFG :: CFG where
  "pointCFG =
     \<lparr>eqPoints = (\<lambda>BB. if BB = 0 then [True, False] else [False]),
      successors = (\<lambda>BB. if BB = 0 then [1] else if BB = 1 then [0, 2] else [])\<rparr>"

definition endCFG :: CFG where
  "endCFG =
     \<lparr>eqPoints = (\<lambda>BB. if BB = 0 then [True] else [False]),
      successors = (\<lambda>BB. if BB = 0 then [1] else if BB = 1 then [0, 2] else [])\<rparr>"

definition simpleLoop :: Loop where
  "simpleLoop = Loop 1 0 [0, 1] []"

definition pointDone :: Analysis where
  "pointDone = snd (analyzeLoop pointCFG [simpleLoop] 100 simpleLoop emptyAnalysis)"

definition endContext :: Context where
  "endContext = loopContext endCFG [simpleLoop] 100 simpleLoop"

definition headerStart :: LoopDFSInfo where
  "headerStart = \<lparr>DFSI_Start = front 0, DFSI_StartsAtHeader = True\<rparr>"

definition endSearch :: "bool \<times> Analysis" where
  "endSearch = loopDFS endContext headerStart (front 0) [] emptyAnalysis"

text \<open>
  A nest of two loops in which the header of the outer loop, block 0, ends with an
  equivalence point and branches to block 1 and to block 3. Block 1 is a loop of its own
  (it branches to itself and to block 2) and starts with an equivalence point; the blocks
  3 and 2 (the latch) belong to the outer loop alone. \<open>subInnerDone\<close> is the state in
  which the search of the outer loop starts, after the analysis of the inner loop.
\<close>

definition subEndCFG :: CFG where
  "subEndCFG =
     \<lparr>eqPoints = (\<lambda>BB. if BB = 0 then [True] else if BB = 1 then [True, False] else [False]),
      successors = (\<lambda>BB. if BB = 0 then [1, 3] else if BB = 1 then [1, 2] else if BB = 2 then [0, 4]
                          else if BB = 3 then [2] else [])\<rparr>"

definition subOuterLoop :: Loop where
  "subOuterLoop = Loop 1 0 [0, 1, 2, 3] [innerLoop]"

definition subContext :: Context where
  "subContext = loopContext subEndCFG [subOuterLoop] 100 subOuterLoop"

definition subInnerDone :: Analysis where
  "subInnerDone =
     loopInit subOuterLoop (snd (analyzeLoop subEndCFG [subOuterLoop] 100 innerLoop emptyAnalysis))"

definition subSearch :: "bool \<times> Analysis" where
  "subSearch = loopDFS subContext headerStart (front 0) [] subInnerDone"

subsection \<open>C1: failure of the analysis of a function\<close>



subsection \<open>C2: the shape of the enumerated paths\<close>

text \<open>
  C2 as stated fails. In the nest of two loops, analysed innermost first without failure,
  the first path of the outer loop consists of the header, block 0, alone and does not
  end at a backedge; block 0 is not a latch of the outer loop and contains no equivalence
  point. The path ends at the end of block 0 because the successor of block 0 lies in the
  inner loop, whose exiting block has an equivalence point path.
\<close>

theorem path_stops_before_subloop:
  "\<not> TooManyPaths nestResult \<and> \<not> DetectedCycle nestResult \<and>
   Paths nestResult 1 =
     Some [\<lparr>Nodes = [(0, False)], Start = (0, 0), End = (0, 0),
            StartsAtHeader = True, EndsAtBackedge = False\<rparr>,
           \<lparr>Nodes = [(1, True), (2, False)], Start = (1, 1), End = (2, 0),
            StartsAtHeader = False, EndsAtBackedge = True\<rparr>] \<and>
   getLoopLatches nestCFG outerLoop = [2] \<and> eqPoints nestCFG 0 = [False]"
  by code_simp

text \<open>
  C2, amended. For every loop successfully analysed, every enumerated path is not empty and
  never repeats a block, and its last block \<open>BB\<close>, the block of its end instruction,
  either is a latch of the loop (then \<open>EndsAtBackedge\<close> is true), or holds the equivalence
  point the path ends at (then \<open>EndsAtBackedge\<close> is false), or has a successor in a
  sub-loop of the loop one of whose exiting blocks has an equivalence point path; in the
  last case the path ends at the terminator of \<open>BB\<close> and \<open>EndsAtBackedge\<close> is false.
\<close>

theorem paths_well_formed:
  assumes "analyzeLoop g loops maxPaths L st = (True, st')"
    and "Paths st' (loopId L) = Some ps" and "p \<in> set ps"
    and "BB = fst (last (Nodes p))"
  shows "Nodes p \<noteq> [] \<and> distinct (map fst (Nodes p)) \<and> fst (End p) = BB \<and>
         ((EndsAtBackedge p \<and> BB \<in> set (getLoopLatches g L)) \<or>
          (\<not> EndsAtBackedge p \<and> isEquivalencePoint g (End p)) \<or>
          (\<not> EndsAtBackedge p \<and> End p = getTerminator g BB \<and>
           (\<exists>Succ \<in> set (successors g BB). \<exists>S. \<exists>Exit \<in> set (getExitingBlocks g S).
              contains L Succ \<and> Succ \<in> set (getSubBlocks L) \<and> getLoopFor loops Succ = Some S \<and>
              HasEqPointPath st' (loopId S) Exit = Some True)))"
proof -
  let ?c = "loopContext g loops maxPaths L"
  have ok: "pathOK ?c st' p" using assms(1-3) by (rule analyzeLoop_pathOK)
  have sub: "\<exists>Succ \<in> set (successors g BB). \<exists>S. \<exists>Exit \<in> set (getExitingBlocks g S).
              contains L Succ \<and> Succ \<in> set (getSubBlocks L) \<and> getLoopFor loops Succ = Some S \<and>
              HasEqPointPath st' (loopId S) Exit = Some True"
    if "stopsBeforeSubLoop ?c st' BB"
    using that unfolding stopsBeforeSubLoop_def loopContext_def
    by (fastforce split: option.splits)
  from ok sub show ?thesis
    unfolding pathOK_def assms(4) [symmetric] by (auto simp: loopContext_def)
qed

theorem paths_well_formed_witness:
  "fst (analyzeLoop nestCFG [outerLoop] 100 outerLoop innerDone) \<and>
   hd (the (Paths outerDone 1)) \<in> set (the (Paths outerDone 1)) \<and>
   \<not> EndsAtBackedge (hd (the (Paths outerDone 1))) \<and>
   \<not> isEquivalencePoint nestCFG (End (hd (the (Paths outerDone 1)))) \<and>
   distinct (map fst (Nodes (hd (the (Paths outerDone 1))))) \<and>
   End (hd (the (Paths outerDone 1))) =
     getTerminator nestCFG (fst (last (Nodes (hd (the (Paths outerDone 1))))))"
proof -
  let ?A = "analyzeLoop nestCFG [outerLoop] 100 outerLoop innerDone"
  let ?ps = "the (Paths outerDone 1)"
  let ?p = "hd ?ps"
  have f: "fst ?A" by code_simp
  then have 1: "?A = (True, outerDone)" by (cases ?A) (simp add: outerDone_def)
  have "Paths outerDone 1 \<noteq> None" by code_simp
  then have 2: "Paths outerDone (loopId outerLoop) = Some ?ps" by (simp add: outerLoop_def)
  have 3: "?p \<in> set ?ps" by code_simp
  have 4: "\<not> EndsAtBackedge ?p" by code_simp
  have 5: "\<not> isEquivalencePoint nestCFG (End ?p)" by code_simp
  from paths_well_formed [OF 1 2 3 refl] 4 5
  have "distinct (map fst (Nodes ?p)) \<and> End ?p = getTerminator nestCFG (fst (last (Nodes ?p)))"
    by blast
  with f 3 4 5 show ?thesis by blast
qed

subsection \<open>C3: the per-block summaries\<close>

text \<open>
  C3 as stated fails in its second half. In the loop with the header 0 and the latch 1,
  whose header starts with an equivalence point, the analysis enumerates two paths: the
  header alone, ending at the equivalence point, and the path from the instruction after
  the equivalence point through block 1, ending at the backedge. Block 1 gets the entry
  true in \<open>HasEqPointPath\<close>, although the only path through it ends at a backedge.
\<close>

theorem point_started_backedge_path:
  "fst (analyzeLoop pointCFG [simpleLoop] 100 simpleLoop emptyAnalysis) \<and>
   Paths pointDone 1 =
     Some [\<lparr>Nodes = [(0, False)], Start = (0, 0), End = (0, 0),
            StartsAtHeader = True, EndsAtBackedge = False\<rparr>,
           \<lparr>Nodes = [(0, False), (1, False)], Start = (0, 1), End = (1, 0),
            StartsAtHeader = False, EndsAtBackedge = True\<rparr>] \<and>
   HasEqPointPath pointDone 1 1 = Some True \<and> getSubBlocks simpleLoop = []"
  by code_simp

text \<open>
  C3, amended. For every loop successfully analysed and every block \<open>BB\<close> that is not a
  block of a sub-loop: \<open>HasSpPath\<close> is true of \<open>BB\<close> if and only if some enumerated path
  through \<open>BB\<close> starts at the header and ends at a backedge; \<open>HasEqPointPath\<close> is true of
  \<open>BB\<close> if and only if some enumerated path through \<open>BB\<close> either ends (not at a backedge)
  at an equivalence point in a block that is not a block of a sub-loop, or starts at an
  equivalence point (not at the header) and ends at a backedge. The paths that end before
  a sub-loop set no entry.
\<close>

theorem summaries_match_paths:
  assumes "analyzeLoop g loops maxPaths L st = (True, st')"
    and "Paths st' (loopId L) = Some ps" and "BB \<notin> set (getSubBlocks L)"
  shows "(HasSpPath st' (loopId L) BB = Some True \<longleftrightarrow>
            (\<exists>p \<in> set ps. StartsAtHeader p \<and> EndsAtBackedge p \<and> BB \<in> fst ` set (Nodes p))) \<and>
         (HasEqPointPath st' (loopId L) BB = Some True \<longleftrightarrow>
            (\<exists>p \<in> set ps. BB \<in> fst ` set (Nodes p) \<and>
               (\<not> EndsAtBackedge p \<and> isEquivalencePoint g (End p) \<and>
                  fst (End p) \<notin> set (getSubBlocks L) \<or>
                EndsAtBackedge p \<and> \<not> StartsAtHeader p)))"
proof -
  let ?c = "loopContext g loops maxPaths L"
  from analyzeLoop_searched [OF assms(1), of True] obtain s where
    st': "st' = s\<lparr>Paths := (Paths s)(loopId L \<mapsto> CurPaths s)\<rparr>"
    and steps: "(searchStep ?c True)\<^sup>*\<^sup>* (loopInit L st) s"
    by (auto simp: searched_def)
  have "summaryOK ?c s"
    using steps
  proof (rule searchSteps_invariant)
    show "summaryOK ?c (loopInit L st)"
      by (simp add: summaryOK_def loopInit_def loopContext_def)
  next
    fix s t n0
    assume "summaryOK ?c s" "okStep ?c True n0 s t"
    then show "summaryOK ?c t" using okStep_summaryOK by blast
  next
    fix s :: Analysis and I rest
    assume "summaryOK ?c s"
    then show "summaryOK ?c (s\<lparr>NewPaths := rest\<rparr>)" by (simp add: summaryOK_def)
  qed
  moreover from assms(2) st' have "ps = CurPaths s" by simp
  ultimately show ?thesis
    using assms(3) unfolding summaryOK_def st' by (simp add: loopContext_def)
qed

theorem summaries_match_paths_witness:
  "fst (analyzeLoop pointCFG [simpleLoop] 100 simpleLoop emptyAnalysis) \<and>
   1 \<notin> set (getSubBlocks simpleLoop) \<and>
   HasEqPointPath pointDone (loopId simpleLoop) 1 = Some True \<and>
   (\<exists>p \<in> set (the (Paths pointDone 1)). 1 \<in> fst ` set (Nodes p) \<and>
      (\<not> EndsAtBackedge p \<and> isEquivalencePoint pointCFG (End p) \<and>
         fst (End p) \<notin> set (getSubBlocks simpleLoop) \<or>
       EndsAtBackedge p \<and> \<not> StartsAtHeader p)) \<and>
   HasSpPath pointDone (loopId simpleLoop) 1 \<noteq> Some True \<and>
   \<not> (\<exists>p \<in> set (the (Paths pointDone 1)).
         StartsAtHeader p \<and> EndsAtBackedge p \<and> 1 \<in> fst ` set (Nodes p))"
proof -
  let ?A = "analyzeLoop pointCFG [simpleLoop] 100 simpleLoop emptyAnalysis"
  let ?ps = "the (Paths pointDone 1)"
  have f: "fst ?A" by code_simp
  then have 1: "?A = (True, pointDone)" by (cases ?A) (simp add: pointDone_def)
  have "Paths pointDone 1 \<noteq> None" by code_simp
  then have 2: "Paths pointDone (loopId simpleLoop) = Some ?ps" by (simp add: simpleLoop_def)
  have 3: "1 \<notin> set (getSubBlocks simpleLoop)" by code_simp
  have 4: "HasEqPointPath pointDone (loopId simpleLoop) 1 = Some True" by code_simp
  have 5: "HasSpPath pointDone (loopId simpleLoop) 1 \<noteq> Some True" by code_simp
  note t = summaries_match_paths [OF 1 2 3]
  from t 4 have a: "\<exists>p \<in> set ?ps. 1 \<in> fst ` set (Nodes p) \<and>
      (\<not> EndsAtBackedge p \<and> isEquivalencePoint pointCFG (End p) \<and>
         fst (End p) \<notin> set (getSubBlocks simpleLoop) \<or>
       EndsAtBackedge p \<and> \<not> StartsAtHeader p)" by blast
  from t 5 have b: "\<not> (\<exists>p \<in> set ?ps. StartsAtHeader p \<and> EndsAtBackedge p \<and> 1 \<in> fst ` set (Nodes p))"
    by blast
  from f 3 4 5 a b show ?thesis by blast
qed

subsection \<open>C4: the new starts after an equivalence point at the end of a block\<close>

text \<open>
  C4 as stated fails. In the loop with the header 0 and the latch 1, whose header ends with
  an equivalence point, the search from the header records the path that ends at that
  terminator and adds the first instruction of block 1 as a new start, although block 1
  is a latch of the loop: the source skips the successors outside the loop and the
  header, not the latches.
\<close>

theorem latch_successor_enqueued:
  "fst endSearch \<and> NewPaths (snd endSearch) = [front 1] \<and>
   hasEquivalencePoint endCFG (front 0) = Some (0, 0) \<and> isTerminator endCFG (0, 0) \<and>
   successors endCFG 0 = [1] \<and> Latches endContext = [1] \<and> contains simpleLoop 1 \<and>
   getHeader simpleLoop = 0"
  by code_simp

text \<open>
  C4, amended. A search ends a path at an equivalence point \<open>e\<close> that is the terminator of
  its block (a block of the loop itself that is not yet on the path, the path so far not
  repeating a block) and returns true. Let \<open>Succs\<close> be the successors of the block that are
  in the loop and are not its header (latches included), \<open>P\<close> the path recorded, and
  \<open>Exits m Succ\<close> the terminators of the exiting blocks of the sub-loop of \<open>Succ\<close> that have
  the entry true in the summary \<open>m\<close>, in the order of the exiting blocks. Then:
  \<^item> the first instruction of every block of \<open>Succs\<close> that is not in a sub-loop is among the
    new starts afterwards;
  \<^item> for every block of \<open>Succs\<close> in a sub-loop, the terminators of the exiting blocks of
    the sub-loop that have an equivalence point path are among the new starts afterwards;
  \<^item> no start queued before is lost;
  \<^item> if no sub-loop of a block of \<open>Succs\<close> has an exiting block with a spanning path, the
    new starts afterwards are exactly the starts queued before, followed, for the blocks
    of \<open>Succs\<close> in order, by the first instruction of the block, or for a block in a
    sub-loop by the terminators of the exiting blocks of the sub-loop with an equivalence
    point path, each added only if not yet present (the entries of the summaries that are
    true are then the same during and after the step);
  \<^item> in general the search returns what the processing of \<open>Succs\<close> in order returns,
    from the state with the path recorded and its blocks marked: a block that is not in a
    sub-loop adds its first instruction to the new starts if not yet present; a block in
    a sub-loop adds the vector \<open>EqPoint\<close> of \<open>getSubLoopSuccessors\<close> to the new starts, each
    if not yet present, and then the search goes on, with the path \<open>P\<close>, at each
    instruction of the vector \<open>Spanning\<close>;
  \<^item> the vectors \<open>EqPoint\<close> and \<open>Spanning\<close> of \<open>getSubLoopSuccessors\<close> are
    \<open>Exits\<close> of the summary \<open>HasEqPointPath\<close> and of the summary \<open>HasSpPath\<close>, and
    \<open>getSubLoopSuccessors\<close> leaves the new starts as they are.
\<close>

theorem new_starts_after_terminator:
  assumes "fst I \<notin> set (SubLoopBlocks c)" and "\<not> pathContains PathNodes (fst I)"
    and "distinct (map fst PathNodes)"
    and "hasEquivalencePoint (cfg c) I = Some e" and "isTerminator (cfg c) e"
    and "loopDFS c d I PathNodes st = (True, st')"
    and "Succs = filter (\<lambda>Succ. contains (CurLoop c) Succ \<and> Succ \<noteq> getHeader (CurLoop c))
                        (successors (cfg c) (fst I))"
    and "Exits = (\<lambda>m Succ. case getLoopFor (LI c) Succ of
                     None \<Rightarrow> []
                   | Some S \<Rightarrow> map (getTerminator (cfg c))
                       (filter (\<lambda>Exit. m (loopId S) Exit = Some True) (getExitingBlocks (cfg c) S)))"
    and "P = PathNodes @ [(fst I, False)]"
  shows "(\<forall>Succ \<in> set Succs. Succ \<notin> set (SubLoopBlocks c) \<longrightarrow> front Succ \<in> set (NewPaths st')) \<and>
         (\<forall>Succ \<in> set Succs. Succ \<in> set (SubLoopBlocks c) \<longrightarrow>
            set (Exits (HasEqPointPath st) Succ) \<subseteq> set (NewPaths st')) \<and>
         set (NewPaths st) \<subseteq> set (NewPaths st') \<and>
         ((\<forall>Succ \<in> set Succs. Succ \<in> set (SubLoopBlocks c) \<longrightarrow> Exits (HasSpPath st) Succ = []) \<longrightarrow>
            NewPaths st' =
              foldl (\<lambda>List Succ.
                       if Succ \<notin> set (SubLoopBlocks c) then pushIfNotPresent (front Succ) List
                       else foldl (\<lambda>List SLE. pushIfNotPresent SLE List) List
                              (Exits (HasEqPointPath st') Succ))
                    (NewPaths st) Succs) \<and>
         loopDFS c d I PathNodes st =
           forEach
             (\<lambda>Succ s.
                if Succ \<notin> set (SubLoopBlocks c)
                then (True, s\<lparr>NewPaths := pushIfNotPresent (front Succ) (NewPaths s)\<rparr>)
                else (case getSubLoopSuccessors c Succ s of
                        (EqPointInsts, SpanningInsts, s1) \<Rightarrow>
                          forEach (\<lambda>SLE s'. loopDFS c d SLE P s') SpanningInsts
                            (s1\<lparr>NewPaths := foldl (\<lambda>List SLE. pushIfNotPresent SLE List)
                                              (NewPaths s1) EqPointInsts\<rparr>)))
             Succs (markEqPoint c P (addPath d P e False st)) \<and>
         (\<forall>Succ s. fst (getSubLoopSuccessors c Succ s) = Exits (HasEqPointPath s) Succ \<and>
                   fst (snd (getSubLoopSuccessors c Succ s)) = Exits (HasSpPath s) Succ \<and>
                   NewPaths (snd (snd (getSubLoopSuccessors c Succ s))) = NewPaths s)"
proof -
  let ?BB = "fst I"
  let ?st1 = "addPath d P e False st"
  let ?st2 = "markEqPoint c P ?st1"
  let ?Q = "\<lambda>Succ. contains (CurLoop c) Succ \<and> Succ \<noteq> getHeader (CurLoop c)"
  let ?cont = "\<lambda>SLE s'. loopDFS c d SLE P s'"
  let ?body = "\<lambda>Succ s.
                 if \<not> ?Q Succ then (True, s)
                 else if Succ \<notin> set (SubLoopBlocks c) then (True, push (front Succ) s)
                 else enterSubLoopAfterEqPoint c ?cont Succ s"
  let ?body1 = "\<lambda>Succ s.
                 if Succ \<notin> set (SubLoopBlocks c) then (True, push (front Succ) s)
                 else enterSubLoopAfterEqPoint c ?cont Succ s"
  let ?body2 = "\<lambda>Succ s.
                if Succ \<notin> set (SubLoopBlocks c)
                then (True, s\<lparr>NewPaths := pushIfNotPresent (front Succ) (NewPaths s)\<rparr>)
                else (case getSubLoopSuccessors c Succ s of
                        (EqPointInsts, SpanningInsts, s1) \<Rightarrow>
                          forEach ?cont SpanningInsts
                            (s1\<lparr>NewPaths := foldl (\<lambda>List SLE. pushIfNotPresent SLE List)
                                              (NewPaths s1) EqPointInsts\<rparr>))"
  have Exits: "Exits = exitsWith c"
    unfolding assms(8) by (intro ext) (simp add: exitsWith_def)
  have room: "length (CurPaths st) < MaxNumPaths c"
  proof (rule ccontr)
    assume "\<not> length (CurPaths st) < MaxNumPaths c"
    then have "loopDFS c d I PathNodes st = (False, ?st1\<lparr>TooManyPaths := True\<rparr>)"
      using assms(1,2,4) unfolding assms(9)
      by (subst loopDFS.simps) (simp add: Let_def length_addPath)
    with assms(6) show False by simp
  qed
  have "loopDFS c d I PathNodes st = forEach ?body (successors (cfg c) ?BB) ?st2"
    using assms(1,2,4,5) room unfolding assms(9)
    by (subst loopDFS.simps) (simp add: Let_def length_addPath)
  also have "\<dots> = forEach ?body (filter ?Q (successors (cfg c) ?BB)) ?st2"
    by (rule forEach_filter) simp
  also have "\<dots> = forEach ?body1 Succs ?st2"
    unfolding assms(7) by (rule forEach_cong) auto
  finally have eq1: "loopDFS c d I PathNodes st = forEach ?body1 Succs ?st2" .
  have "?body1 Succ s = ?body2 Succ s" for Succ s
  proof (cases "Succ \<in> set (SubLoopBlocks c)")
    case True
    then show ?thesis by (simp add: enterSubLoopAfterEqPoint_def foldl_push split: prod.splits)
  next
    case False
    then show ?thesis by (simp add: push_def)
  qed
  then have "forEach ?body1 Succs ?st2 = forEach ?body2 Succs ?st2"
    by (intro forEach_cong) auto
  with eq1 have 5: "loopDFS c d I PathNodes st = forEach ?body2 Succs ?st2" by simp
  from eq1 assms(6) have run: "forEach ?body1 Succs ?st2 = (True, st')" by simp
  have dist: "distinct (map fst P)" unfolding assms(9) using assms(3,2) by (rule distinct_extend)
  have N2: "NewPaths ?st2 = NewPaths st" by (simp add: markEqPoint_def addPath_def)
  have Sp2: "HasSpPath ?st2 = HasSpPath st" by (simp add: markEqPoint_def addPath_def)
  have len2: "length (CurPaths st) < length (CurPaths ?st2)"
    by (simp add: CurPaths_markEqPoint length_addPath)
  have kept: "trueKept (HasEqPointPath st) (HasEqPointPath ?st2)"
    by (simp add: trueKept_def markEqPoint_def addPath_def markNode_true)
  have cont: "traced c False (length (CurPaths st)) t (?cont SLE t)"
    if "length (CurPaths st) \<le> length (CurPaths t)" for SLE t
    using dist that by (intro loopDFS_traced) simp_all
  from afterEqPoint_includes [where body = ?body1 and cont = ?cont and c = c
      and ?n0.0 = "length (CurPaths st)" and xs = Succs and s = ?st2 and s' = st'
      and ?m0.0 = "HasEqPointPath st", OF _ cont run len2 kept]
  have 1: "\<forall>Succ \<in> set Succs. Succ \<notin> set (SubLoopBlocks c) \<longrightarrow> front Succ \<in> set (NewPaths st')"
    and 2: "\<forall>Succ \<in> set Succs. Succ \<in> set (SubLoopBlocks c) \<longrightarrow>
              set (Exits (HasEqPointPath st) Succ) \<subseteq> set (NewPaths st')"
    and 3: "set (NewPaths st) \<subseteq> set (NewPaths st')"
    unfolding N2 Exits by simp_all
  have 4: "NewPaths st' =
              foldl (\<lambda>List Succ.
                       if Succ \<notin> set (SubLoopBlocks c) then pushIfNotPresent (front Succ) List
                       else foldl (\<lambda>List SLE. pushIfNotPresent SLE List) List
                              (Exits (HasEqPointPath st') Succ))
                    (NewPaths st) Succs"
    if nospan: "\<forall>Succ \<in> set Succs. Succ \<in> set (SubLoopBlocks c) \<longrightarrow> Exits (HasSpPath st) Succ = []"
  proof -
    from nospan have "\<forall>Succ \<in> set Succs. Succ \<in> set (SubLoopBlocks c) \<longrightarrow>
                        exitsWith c (HasSpPath ?st2) Succ = []"
      unfolding Exits Sp2 .
    from afterEqPoint_exact [where body = ?body1 and cont = ?cont and c = c and xs = Succs
        and X = ?st2 and s = ?st2, OF _ this sameTrue_refl] run
    have same: "sameTrue st' ?st2"
      and N: "NewPaths st' =
              foldl (\<lambda>List Succ.
                       if Succ \<notin> set (SubLoopBlocks c) then pushIfNotPresent (front Succ) List
                       else foldl (\<lambda>List SLE. pushIfNotPresent SLE List) List
                              (exitsWith c (HasEqPointPath ?st2) Succ))
                    (NewPaths ?st2) Succs"
      by auto
    have "exitsWith c (HasEqPointPath st') Succ = exitsWith c (HasEqPointPath ?st2) Succ" for Succ
      using sameTrue_exitsWith [OF same, of c Succ] by simp
    then show ?thesis unfolding Exits N N2 by (simp cong: if_cong)
  qed
  have 6: "\<forall>Succ s. fst (getSubLoopSuccessors c Succ s) = Exits (HasEqPointPath s) Succ \<and>
                   fst (snd (getSubLoopSuccessors c Succ s)) = Exits (HasSpPath s) Succ \<and>
                   NewPaths (snd (snd (getSubLoopSuccessors c Succ s))) = NewPaths s"
    unfolding Exits using getSubLoopSuccessors_vectors getSubLoopSuccessors_frame by simp
  from 1 2 3 4 5 6 show ?thesis by blast
qed

theorem new_starts_after_terminator_witness:
  "fst subSearch \<and> hasEquivalencePoint (cfg subContext) (front 0) = Some (0, 0) \<and>
   isTerminator (cfg subContext) (0, 0) \<and>
   filter (\<lambda>Succ. contains (CurLoop subContext) Succ \<and> Succ \<noteq> getHeader (CurLoop subContext))
          (successors (cfg subContext) (fst (front 0))) = [1, 3] \<and>
   SubLoopBlocks subContext = [1] \<and> getLoopFor (LI subContext) 1 = Some innerLoop \<and>
   getExitingBlocks subEndCFG innerLoop = [1] \<and>
   HasEqPointPath subInnerDone (loopId innerLoop) 1 = Some True \<and>
   HasSpPath subInnerDone (loopId innerLoop) 1 \<noteq> Some True \<and>
   NewPaths subInnerDone = [] \<and>
   getTerminator subEndCFG 1 \<in> set (NewPaths (snd subSearch)) \<and>
   front 3 \<in> set (NewPaths (snd subSearch)) \<and>
   NewPaths (snd subSearch) = [getTerminator subEndCFG 1, front 3]"
proof -
  let ?S = "filter (\<lambda>Succ. contains (CurLoop subContext) Succ \<and> Succ \<noteq> getHeader (CurLoop subContext))
              (successors (cfg subContext) (fst (front 0)))"
  let ?Exits = "\<lambda>m Succ. case getLoopFor (LI subContext) Succ of
                     None \<Rightarrow> []
                   | Some S \<Rightarrow> map (getTerminator (cfg subContext))
                       (filter (\<lambda>Exit. m (loopId S) Exit = Some True)
                          (getExitingBlocks (cfg subContext) S))"
  have 1: "fst (front 0) \<notin> set (SubLoopBlocks subContext)" by code_simp
  have 2: "\<not> pathContains [] (fst (front 0))" by (simp add: pathContains_def)
  have 3: "distinct (map fst ([] :: PathNode list))" by simp
  have 4: "hasEquivalencePoint (cfg subContext) (front 0) = Some (0, 0)" by code_simp
  have 5: "isTerminator (cfg subContext) (0, 0)" by code_simp
  have f: "fst subSearch" by code_simp
  then have 6: "loopDFS subContext headerStart (front 0) [] subInnerDone = (True, snd subSearch)"
    by (cases subSearch) (simp add: subSearch_def)
  have S: "?S = [1, 3]" by code_simp
  have B: "SubLoopBlocks subContext = [1]" by code_simp
  have G: "getLoopFor (LI subContext) 1 = Some innerLoop" by code_simp
  have X: "getExitingBlocks subEndCFG innerLoop = [1]" by code_simp
  have E: "HasEqPointPath subInnerDone (loopId innerLoop) 1 = Some True" by code_simp
  have H: "HasSpPath subInnerDone (loopId innerLoop) 1 \<noteq> Some True" by code_simp
  have N: "NewPaths subInnerDone = []" by code_simp
  have m: "1 \<in> set ?S" "1 \<in> set (SubLoopBlocks subContext)"
    "3 \<in> set ?S" "3 \<notin> set (SubLoopBlocks subContext)" by code_simp+
  have x: "?Exits (HasEqPointPath subInnerDone) 1 = [getTerminator subEndCFG 1]" by code_simp
  have n: "\<forall>Succ \<in> set ?S. Succ \<in> set (SubLoopBlocks subContext) \<longrightarrow>
             ?Exits (HasSpPath subInnerDone) Succ = []" by code_simp
  have v: "foldl (\<lambda>List Succ.
                    if Succ \<notin> set (SubLoopBlocks subContext) then pushIfNotPresent (front Succ) List
                    else foldl (\<lambda>List SLE. pushIfNotPresent SLE List) List
                           (?Exits (HasEqPointPath (snd subSearch)) Succ))
                 (NewPaths subInnerDone) ?S = [getTerminator subEndCFG 1, front 3]" by code_simp
  note t = new_starts_after_terminator [OF 1 2 3 4 5 6 refl refl refl]
  from t [THEN conjunct1] m(3,4) have a: "front 3 \<in> set (NewPaths (snd subSearch))" by blast
  from t [THEN conjunct2, THEN conjunct1] m(1,2)
  have "set (?Exits (HasEqPointPath subInnerDone) 1) \<subseteq> set (NewPaths (snd subSearch))" by blast
  then have b: "getTerminator subEndCFG 1 \<in> set (NewPaths (snd subSearch))" unfolding x by simp
  from t [THEN conjunct2, THEN conjunct2, THEN conjunct2, THEN conjunct1] n
  have "NewPaths (snd subSearch) =
          foldl (\<lambda>List Succ.
                    if Succ \<notin> set (SubLoopBlocks subContext) then pushIfNotPresent (front Succ) List
                    else foldl (\<lambda>List SLE. pushIfNotPresent SLE List) List
                           (?Exits (HasEqPointPath (snd subSearch)) Succ))
                 (NewPaths subInnerDone) ?S" by (rule mp)
  then have c: "NewPaths (snd subSearch) = [getTerminator subEndCFG 1, front 3]" unfolding v .
  from f 4 5 S B G X E H N a b c show ?thesis by (intro conjI)
qed

end
